theory Spec2Isabelle
  imports Complex_Main
begin

section \<open>Data model of the online request processor\<close>

text \<open>
  The embedding follows \<^verbatim>\<open>request_processor/online/base_online_request_processor.py\<close>
  and \<^verbatim>\<open>request_processor/online/openai_online_request_processor.py\<close>, and, for the
  older one-call-per-request path, \<^verbatim>\<open>request_processor/openai_online_request_processor.py\<close>.
  Python integers are \<open>int\<close>; wall-clock readings (\<^verbatim>\<open>time.time()\<close>) and sleep lengths are
  \<open>real\<close> seconds.
\<close>

subsection \<open>Strings: \<^verbatim>\<open>str.lower\<close> and the \<^verbatim>\<open>in\<close> test on ASCII text\<close>

definition lower_char :: "char \<Rightarrow> char" where
  "lower_char c =
     (case map_of (zip ''ABCDEFGHIJKLMNOPQRSTUVWXYZ'' ''abcdefghijklmnopqrstuvwxyz'') c of
        None \<Rightarrow> c
      | Some l \<Rightarrow> l)"

definition lower :: "string \<Rightarrow> string" where
  "lower s = map lower_char s"

fun starts_with :: "string \<Rightarrow> string \<Rightarrow> bool" where
  "starts_with [] s = True"
| "starts_with (p # ps) [] = False"
| "starts_with (p # ps) (c # cs) = (p = c \<and> starts_with ps cs)"

text \<open>\<open>contains sub s\<close> is Python's \<^verbatim>\<open>sub in s\<close> on strings.\<close>

fun contains :: "string \<Rightarrow> string \<Rightarrow> bool" where
  "contains sub [] = (sub = [])"
| "contains sub (c # cs) = (starts_with sub (c # cs) \<or> contains sub cs)"

subsection \<open>Requests, responses, exceptions\<close>

record generic_request =
  original_row_idx :: int
  model :: string
  messages :: "(string \<times> string) list list"

text \<open>A Python exception as the handler sees it: \<^verbatim>\<open>e.__class__.__name__\<close> and \<^verbatim>\<open>str(e)\<close>.\<close>

record exn =
  exn_class :: string
  exn_str :: string

text \<open>The dataclass \<^verbatim>\<open>APIRequest\<close> (the shared prompt formatter is a parameter of the run).\<close>

record api_request =
  task_id :: int
  generic_request :: generic_request
  api_specific_request :: string
  attempts_left :: int
  result :: "exn list"
  created_at :: real

text \<open>\<^verbatim>\<open>_TokenCount\<close> and \<^verbatim>\<open>TokenUsage\<close>.\<close>

record token_count =
  tc_input :: int
  tc_output :: int

record token_usage =
  prompt_tokens :: int
  completion_tokens :: int
  total_tokens :: int

text \<open>
  The decoded body of an HTTP response, as far as \<^verbatim>\<open>call_single_request\<close> looks at it:
  a body with an \<^verbatim>\<open>"error"\<close> key (with the error's optional \<^verbatim>\<open>"message"\<close>), a chat completion
  (\<^verbatim>\<open>choices[0].message.content\<close>, the optional \<^verbatim>\<open>choices[0].finish_reason\<close>, \<^verbatim>\<open>usage\<close>),
  or a body with neither, on which the field accesses raise \<^verbatim>\<open>KeyError\<close>.
\<close>

datatype response_json =
    ErrorBody "string option"
  | CompletionBody string "string option" token_usage
  | MalformedBody

text \<open>
  What awaiting the HTTP call gives: an exception raised before a decoded body exists
  (for instance \<^verbatim>\<open>httpx.ReadTimeout\<close>), or a status code with the decoded body.
\<close>

datatype http_result =
    HttpRaised exn
  | HttpReturned int response_json

datatype message = Content string | CompletionsObject response_json

record generic_response =
  response_message :: "message option"
  response_errors :: "string list option"
  raw_request :: string
  raw_response :: "response_json option"
  resp_generic_request :: generic_request
  resp_created_at :: real
  finished_at :: real
  token_usage :: "token_usage option"
  response_cost :: "real option"
  finish_reason :: "string option"

subsection \<open>Status tracker and configuration\<close>

text \<open>
  The counters of \<^verbatim>\<open>OnlineStatusTracker\<close> that the processor reads and writes. The class itself
  is not part of the sources at hand: its capacity methods (\<^verbatim>\<open>has_capacity\<close>,
  \<^verbatim>\<open>consume_capacity\<close>, \<^verbatim>\<open>free_capacity\<close>, \<^verbatim>\<open>update_stats\<close>) appear below as recorded calls,
  and the answer of \<^verbatim>\<open>has_capacity\<close> is an input of the run.
\<close>

record status_tracker =
  num_tasks_started :: int
  num_tasks_in_progress :: int
  num_tasks_succeeded :: int
  num_tasks_failed :: int
  num_rate_limit_errors :: int
  num_api_errors :: int
  num_other_errors :: int
  time_of_last_rate_limit_error :: real
  max_tokens_per_minute :: "int option"

text \<open>
  The configuration and the collaborators the processor is constructed with.
  \<open>max_concurrent_requests\<close> is the size of \<^verbatim>\<open>self._semaphore\<close> (\<open>None\<close>: no such semaphore);
  \<open>max_batch\<close> sizes \<^verbatim>\<open>request_semaphore\<close> (\<^verbatim>\<open>asyncio.Semaphore\<close> rejects a negative size).
  \<open>estimate_total_tokens\<close>, \<open>create_api_specific_request_online\<close>, \<open>completion_cost\<close>
  (\<open>None\<close>: it raised) and \<open>response_format_ok\<close> (whether
  \<^verbatim>\<open>prompt_formatter.response_to_response_format\<close> returns rather than raises) stand for code
  outside the processor.
\<close>

record config =
  max_retries :: int
  seconds_to_pause_on_rate_limit :: real
  invalid_finish_reasons :: "string list"
  max_batch :: nat
  max_concurrent_requests :: "nat option"
  return_completions_object :: bool
  estimate_total_tokens :: "(string \<times> string) list list \<Rightarrow> token_count"
  create_api_specific_request_online :: "generic_request \<Rightarrow> string"
  completion_cost :: "response_json \<Rightarrow> real option"
  response_format_ok :: "message \<Rightarrow> bool"

section \<open>The moving window of output tokens\<close>

definition MAX_OUTPUT_MVA_WINDOW :: nat where
  "MAX_OUTPUT_MVA_WINDOW = 50"

text \<open>
  \<^verbatim>\<open>collections.deque(maxlen=n).append(x)\<close>: the element is added on the right and, when the
  deque is then longer than \<open>n\<close>, one element is dropped on the left.
\<close>

definition deque_append :: "nat \<Rightarrow> 'a list \<Rightarrow> 'a \<Rightarrow> 'a list" where
  "deque_append maxlen d x = (let d' = d @ [x] in if length d' > maxlen then tl d' else d')"

definition add_output_token_moving_window :: "int list \<Rightarrow> int \<Rightarrow> int list" where
  "add_output_token_moving_window window tokens = deque_append MAX_OUTPUT_MVA_WINDOW window tokens"

text \<open>The window after the processor, created with an empty deque, has observed \<open>xs\<close> in order.\<close>

definition observed_window :: "int list \<Rightarrow> int list" where
  "observed_window xs = foldl add_output_token_moving_window [] xs"

datatype py_error = ZeroDivisionError

text \<open>Python's \<^verbatim>\<open>a / b\<close> on integers; the float quotient is read as a real number.\<close>

definition py_truediv :: "int \<Rightarrow> int \<Rightarrow> py_error + real" where
  "py_truediv a b = (if b = 0 then Inl ZeroDivisionError else Inr (real_of_int a / real_of_int b))"

definition output_tokens_moving_average :: "int list \<Rightarrow> py_error + real" where
  "output_tokens_moving_average window =
     py_truediv (sum_list window)
       (if length window \<noteq> 0 then int (length window) else int MAX_OUTPUT_MVA_WINDOW)"

section \<open>One call: \<^verbatim>\<open>call_single_request\<close> of the OpenAI processor\<close>

definition is_rate_limit_message :: "string option \<Rightarrow> bool" where
  "is_rate_limit_message msg =
     contains ''rate limit'' (lower (case msg of None \<Rightarrow> [] | Some m \<Rightarrow> m))"

definition api_error :: "string option \<Rightarrow> exn" where
  "api_error msg =
     \<lparr>exn_class = ''Exception'',
      exn_str = ''API error: '' @ (case msg of None \<Rightarrow> [] | Some m \<Rightarrow> m)\<rparr>"

definition status_error :: exn where
  "status_error = \<lparr>exn_class = ''Exception'', exn_str = ''API request failed with status''\<rparr>"

definition key_error :: exn where
  "key_error = \<lparr>exn_class = ''KeyError'', exn_str = ''choices''\<rparr>"

text \<open>
  The part of \<^verbatim>\<open>call_single_request\<close> after \<^verbatim>\<open>await session.post(...)\<close>, at time \<open>now\<close>.
  The result is the raised exception or the returned \<^verbatim>\<open>GenericResponse\<close>, with the tracker
  as the call leaves it. (The texts of the exceptions are shortened: the f-strings of the
  source print the whole error object.)
\<close>

definition call_single_request ::
  "config \<Rightarrow> real \<Rightarrow> api_request \<Rightarrow> http_result \<Rightarrow> status_tracker
     \<Rightarrow> (exn + generic_response) \<times> status_tracker" where
  "call_single_request cfg now request res st =
     (case res of
        HttpRaised e \<Rightarrow> (Inl e, st)
      | HttpReturned status_code response \<Rightarrow>
          (case response of
             ErrorBody msg \<Rightarrow>
               (let st1 = st\<lparr>num_api_errors := num_api_errors st + 1\<rparr>;
                    st2 = (if is_rate_limit_message msg
                           then st1\<lparr>time_of_last_rate_limit_error := now,
                                    num_rate_limit_errors := num_rate_limit_errors st1 + 1,
                                    num_api_errors := num_api_errors st1 - 1,
                                    num_other_errors := num_other_errors st1 - 1\<rparr>
                           else st1)
                in (Inl (api_error msg), st2))
           | CompletionBody content reason usage \<Rightarrow>
               (if status_code \<noteq> 200 then (Inl status_error, st)
                else (Inr \<lparr>response_message =
                             Some (if return_completions_object cfg
                                   then CompletionsObject response else Content content),
                           response_errors = None,
                           raw_request = api_specific_request request,
                           raw_response = Some response,
                           resp_generic_request = generic_request request,
                           resp_created_at = created_at request,
                           finished_at = now,
                           token_usage = Some usage,
                           response_cost =
                             Some (case completion_cost cfg response of
                                     None \<Rightarrow> 0 | Some c \<Rightarrow> c),
                           finish_reason =
                             Some (case reason of None \<Rightarrow> ''unkown'' | Some r \<Rightarrow> r)\<rparr>,
                      st))
           | MalformedBody \<Rightarrow>
               (if status_code \<noteq> 200 then (Inl status_error, st) else (Inl key_error, st))))"

section \<open>The record of calls\<close>

text \<open>
  The run keeps a record of the calls it makes, each with the time it is made at; the
  head of the list is the latest event. No step reads the record. In an event, the number
  \<open>h\<close> identifies the task (one attempt) created by the \<open>h\<close>-th \<^verbatim>\<open>asyncio.create_task\<close>.
\<close>

datatype event =
    ConsumeCapacity "token_count option"
  | CreateTask nat
  | CoolDownCheck real
  | InProgressInc nat
  | HttpCall nat
  | RateLimitError nat
  | UpdateStats nat
  | FreeCapacity nat token_count "token_count option"
  | TrackerFreeCapacity nat token_count "token_count option"
  | AttemptFailed nat
  | PutRetry nat
  | AppendSuccess nat
  | AppendFailure nat
  | InProgressDec nat
  | SucceededInc nat
  | FailedInc nat

section \<open>One attempt: \<^verbatim>\<open>handle_single_request_with_retries\<close>\<close>

definition value_error :: exn where
  "value_error = \<lparr>exn_class = ''ValueError'', exn_str = ''finish_reason was invalid''\<rparr>"

definition format_error :: exn where
  "format_error = \<lparr>exn_class = ''ValidationError'', exn_str = ''response format''\<rparr>"

definition attribute_error :: exn where
  "attribute_error = \<lparr>exn_class = ''AttributeError'', exn_str = ''prompt_tokens''\<rparr>"

definition rate_limited :: "http_result \<Rightarrow> bool" where
  "rate_limited res =
     (case res of
        HttpReturned status_code (ErrorBody msg) \<Rightarrow> is_rate_limit_message msg
      | _ \<Rightarrow> False)"

text \<open>
  \<^verbatim>\<open>_free_capacity\<close>: the tracker's \<^verbatim>\<open>free_capacity\<close> is called only under a token limit.
\<close>

definition free_capacity_events ::
  "status_tracker \<Rightarrow> nat \<Rightarrow> token_count \<Rightarrow> token_count option \<Rightarrow> event list" where
  "free_capacity_events st h used_capacity blocked_capacity =
     FreeCapacity h used_capacity blocked_capacity #
     (if max_tokens_per_minute st \<noteq> None
      then [TrackerFreeCapacity h used_capacity blocked_capacity] else [])"

text \<open>
  The \<^verbatim>\<open>try\<close> block from the return of the HTTP call on, for the task \<open>h\<close>: the raised exception
  or the response to save, the tracker, and the calls made in order.
\<close>

definition try_block ::
  "config \<Rightarrow> real \<Rightarrow> nat \<Rightarrow> api_request \<Rightarrow> token_count option \<Rightarrow> http_result
     \<Rightarrow> status_tracker \<Rightarrow> (exn + generic_response) \<times> status_tracker \<times> event list" where
  "try_block cfg now h request blocked_capacity res st =
     (case call_single_request cfg now request res st of
        (Inl e, st1) \<Rightarrow> (Inl e, st1, if rate_limited res then [RateLimitError h] else [])
      | (Inr generic_response, st1) \<Rightarrow>
          (if (case finish_reason generic_response of
                 None \<Rightarrow> False
               | Some r \<Rightarrow> r \<in> set (invalid_finish_reasons cfg))
           then (Inl value_error, st1, [])
           else if (case response_message generic_response of
                      None \<Rightarrow> False
                    | Some m \<Rightarrow> \<not> response_format_ok cfg m)
           then (Inl format_error, st1, [UpdateStats h])
           else
             (case token_usage generic_response of
                None \<Rightarrow> (Inl attribute_error, st1, [UpdateStats h])
              | Some usage \<Rightarrow>
                  (Inr generic_response, st1,
                   UpdateStats h #
                   free_capacity_events st1 h
                     \<lparr>tc_input = prompt_tokens usage, tc_output = completion_tokens usage\<rparr>
                     blocked_capacity))))"

definition is_read_timeout :: "exn \<Rightarrow> bool" where
  "is_read_timeout e = contains ''ReadTimeout'' (exn_class e)"

text \<open>
  How an attempt leaves the code before the next \<^verbatim>\<open>await\<close>: with the response to append as a
  success, with the request put on the retry queue, or with the permanent-failure record
  to append.
\<close>

datatype attempt_outcome =
    Succeeded generic_response
  | Requeued api_request
  | Exhausted api_request generic_response

text \<open>The \<^verbatim>\<open>except Exception as e\<close> block up to its \<^verbatim>\<open>await\<close> (or its \<^verbatim>\<open>return\<close>).\<close>

definition except_block ::
  "real \<Rightarrow> exn \<Rightarrow> api_request \<Rightarrow> status_tracker \<Rightarrow> attempt_outcome \<times> status_tracker" where
  "except_block now e request st =
     (let st1 = st\<lparr>num_other_errors := num_other_errors st + 1\<rparr>;
          request1 = request\<lparr>result := result request @ [e]\<rparr>
      in if attempts_left request1 > 0
         then
           (let request2 = (if is_read_timeout e
                            then request1\<lparr>attempts_left := attempts_left request1 - 1\<rparr>
                            else request1);
                request3 = request2\<lparr>attempts_left := attempts_left request2 - 1\<rparr>
            in (Requeued request3, st1))
         else
           (Exhausted request1
              \<lparr>response_message = None,
               response_errors = Some (map exn_str (result request1)),
               raw_request = api_specific_request request1,
               raw_response = None,
               resp_generic_request = generic_request request1,
               resp_created_at = created_at request1,
               finished_at = now,
               token_usage = None,
               response_cost = None,
               finish_reason = None\<rparr>,
            st1))"

text \<open>
  The whole attempt from the return of the HTTP call to the next \<^verbatim>\<open>await\<close>: the outcome, the
  tracker, the window of output tokens (the \<^verbatim>\<open>else\<close> branch of the \<^verbatim>\<open>try\<close>), and the calls.
\<close>

definition handle_response ::
  "config \<Rightarrow> real \<Rightarrow> nat \<Rightarrow> api_request \<Rightarrow> token_count option \<Rightarrow> http_result
     \<Rightarrow> status_tracker \<Rightarrow> int list
     \<Rightarrow> attempt_outcome \<times> status_tracker \<times> int list \<times> event list" where
  "handle_response cfg now h request blocked_capacity res st window =
     (case try_block cfg now h request blocked_capacity res st of
        (Inl e, st1, evs) \<Rightarrow>
          (case except_block now e request st1 of
             (outcome, st2) \<Rightarrow> (outcome, st2, window, evs @ [AttemptFailed h]))
      | (Inr generic_response, st1, evs) \<Rightarrow>
          (Succeeded generic_response, st1,
           (case token_usage generic_response of
              None \<Rightarrow> window
            | Some usage \<Rightarrow> add_output_token_moving_window window (completion_tokens usage)),
           evs))"

section \<open>The older path: \<^verbatim>\<open>process_single_request\<close>\<close>

text \<open>
  \<^verbatim>\<open>OpenAIOnlineRequestProcessor.process_single_request\<close> of
  \<^verbatim>\<open>request_processor/openai_online_request_processor.py\<close> handles the response and the
  exception in one method. The state it works on is the tracker, the retry queue and the
  response file; \<open>HttpRaised\<close> also stands for an exception of \<^verbatim>\<open>api_endpoint_from_url\<close>.
\<close>

record legacy_state =
  l_status :: status_tracker
  l_retry_queue :: "api_request list"
  l_response_file :: "generic_response list"

definition legacy_try ::
  "config \<Rightarrow> real \<Rightarrow> api_request \<Rightarrow> http_result \<Rightarrow> status_tracker
     \<Rightarrow> (exn + generic_response) \<times> status_tracker" where
  "legacy_try cfg now request res st =
     (case res of
        HttpRaised e \<Rightarrow> (Inl e, st)
      | HttpReturned status_code response \<Rightarrow>
          (case response of
             ErrorBody msg \<Rightarrow>
               (let st1 = st\<lparr>num_api_errors := num_api_errors st + 1\<rparr>;
                    st2 = (if is_rate_limit_message msg
                           then st1\<lparr>time_of_last_rate_limit_error := now,
                                    num_rate_limit_errors := num_rate_limit_errors st1 + 1,
                                    num_api_errors := num_api_errors st1 - 1\<rparr>
                           else st1)
                in (Inl (api_error msg), st2))
           | CompletionBody content reason usage \<Rightarrow>
               (if status_code \<noteq> 200 then (Inl status_error, st)
                else
                  (case completion_cost cfg response of
                     None \<Rightarrow> (Inl \<lparr>exn_class = ''Exception'', exn_str = ''completion_cost''\<rparr>, st)
                   | Some cost \<Rightarrow>
                       (Inr \<lparr>response_message = Some (Content content),
                             response_errors = None,
                             raw_request = api_specific_request request,
                             raw_response = Some response,
                             resp_generic_request = generic_request request,
                             resp_created_at = created_at request,
                             finished_at = now,
                             token_usage = Some usage,
                             response_cost = Some cost,
                             finish_reason = None\<rparr>,
                        st)))
           | MalformedBody \<Rightarrow>
               (if status_code \<noteq> 200 then (Inl status_error, st) else (Inl key_error, st))))"

definition process_single_request ::
  "config \<Rightarrow> real \<Rightarrow> api_request \<Rightarrow> http_result \<Rightarrow> legacy_state \<Rightarrow> legacy_state" where
  "process_single_request cfg now request res ls =
     (case legacy_try cfg now request res (l_status ls) of
        (Inr generic_response, st1) \<Rightarrow>
          ls\<lparr>l_response_file := l_response_file ls @ [generic_response],
             l_status := st1\<lparr>num_tasks_in_progress := num_tasks_in_progress st1 - 1,
                             num_tasks_succeeded := num_tasks_succeeded st1 + 1\<rparr>\<rparr>
      | (Inl e, st1) \<Rightarrow>
          (let st2 = st1\<lparr>num_other_errors := num_other_errors st1 + 1\<rparr>;
               request1 = request\<lparr>result := result request @ [e]\<rparr>
           in if attempts_left request1 > 0
              then ls\<lparr>l_status := st2,
                      l_retry_queue := l_retry_queue ls @
                        [request1\<lparr>attempts_left := attempts_left request1 - 1\<rparr>]\<rparr>
              else ls\<lparr>l_response_file := l_response_file ls @
                        [\<lparr>response_message = None,
                          response_errors = Some (map exn_str (result request1)),
                          raw_request = api_specific_request request1,
                          raw_response = None,
                          resp_generic_request = generic_request request1,
                          resp_created_at = created_at request1,
                          finished_at = now,
                          token_usage = None,
                          response_cost = None,
                          finish_reason = None\<rparr>],
                      l_status := st2\<lparr>num_tasks_in_progress := num_tasks_in_progress st2 - 1,
                                      num_tasks_failed := num_tasks_failed st2 + 1\<rparr>\<rparr>))"

section \<open>The run: \<^verbatim>\<open>process_requests_from_file\<close> and its tasks\<close>

text \<open>
  \<^verbatim>\<open>process_requests_from_file\<close> runs on one asyncio event loop: the main coroutine and the
  tasks it creates (\<^verbatim>\<open>process_with_semaphore\<close>) each run undisturbed from one \<^verbatim>\<open>await\<close> to the
  next, and the loop picks which of the ready ones continues. The model has one step for
  each such stretch of code. Which coroutine runs next, how time passes, what
  \<^verbatim>\<open>has_capacity\<close> answers and what an HTTP call returns are the inputs of a run (an
  \<open>action\<close> each); a step that is not ready (a semaphore without a free permit, a sleep that
  has not ended, a wait for tasks none of which is done) is \<open>None\<close>.
\<close>

subsection \<open>State\<close>

text \<open>Where a task stands: the \<^verbatim>\<open>await\<close> it is suspended at.\<close>

datatype task_pc =
    AwaitSemaphore
  | AwaitHttp
  | AwaitAppendSuccess generic_response
  | AwaitAppendFailure generic_response
  | TaskDone

record task =
  t_request :: api_request
  t_blocked :: "token_count option"
  t_pc :: task_pc

datatype wait_mode = FIRST_COMPLETED | ALL_COMPLETED

text \<open>
  Where the main coroutine stands, with the local variables it holds there: reading the next
  line; acquiring \<^verbatim>\<open>self._semaphore\<close> for a line; sleeping in the \<^verbatim>\<open>has_capacity\<close> loop (until the
  given time); sleeping in \<^verbatim>\<open>cool_down_if_rate_limit_error\<close>; in \<^verbatim>\<open>asyncio.wait\<close> on the
  first-pass tasks; in \<^verbatim>\<open>asyncio.gather\<close>; and the same stations of the retry loop
  (\<^verbatim>\<open>asyncio.wait\<close> there has a mode and, when the queue was not empty, a timeout).
\<close>

datatype main_pc =
    ReadLine
  | AcquireFirst generic_request
  | PollFirst api_request "token_count option" real
  | CoolDown api_request "token_count option" real
  | WaitFirstCompleted
  | Gather
  | AcquireRetry
  | QueueGet
  | PollRetry api_request "token_count option" real
  | WaitRetries wait_mode "real option"
  | Finished

text \<open>
  \<open>tasks\<close> holds every task created so far, in order of creation: task \<open>h\<close> is \<open>tasks ! h\<close>.
  \<open>pending_requests\<close> and \<open>pending_retries\<close> are the sets of task objects of the source, as
  lists of task numbers. \<open>semaphore\<close> is \<^verbatim>\<open>self._semaphore\<close> (its free permits, \<open>None\<close> when
  there is no such semaphore), \<open>request_semaphore\<close> the semaphore of that name.
\<close>

record state =
  now :: real
  file_lines :: "generic_request list"
  completed_request_ids :: "int set"
  main :: main_pc
  tasks :: "task list"
  pending_requests :: "nat list"
  pending_retries :: "nat list"
  queue_of_requests_to_retry :: "api_request list"
  semaphore :: "nat option"
  request_semaphore :: nat
  status_tracker :: status_tracker
  output_tokens_window :: "int list"
  response_file :: "generic_response list"
  trace :: "(real \<times> event) list"

definition emit :: "event list \<Rightarrow> state \<Rightarrow> state" where
  "emit evs s = s\<lparr>trace := rev (map (Pair (now s)) evs) @ trace s\<rparr>"

definition task_done :: "state \<Rightarrow> nat \<Rightarrow> bool" where
  "task_done s h = (h < length (tasks s) \<and> t_pc (tasks s ! h) = TaskDone)"

text \<open>\<^verbatim>\<open>Semaphore.acquire\<close> (\<open>None\<close>: the caller has to wait) and \<^verbatim>\<open>Semaphore.release\<close>.\<close>

definition acquire :: "nat option \<Rightarrow> nat option option" where
  "acquire sem =
     (case sem of
        None \<Rightarrow> Some None
      | Some 0 \<Rightarrow> None
      | Some (Suc n) \<Rightarrow> Some (Some n))"

definition release :: "nat option \<Rightarrow> nat option" where
  "release sem = map_option Suc sem"

subsection \<open>Resuming\<close>

text \<open>
  Modelled from the spec: \<^verbatim>\<open>validate_existing_response_file\<close> is a method of the base class
  \<^verbatim>\<open>BaseRequestProcessor\<close>, which is not among the sources. The specification says of it: the
  log is scanned, and any record whose \<^verbatim>\<open>generic_request.original_row_idx\<close> is present is
  considered complete and its id added to the resume set.
\<close>

definition validate_existing_response_file :: "generic_response list \<Rightarrow> int set" where
  "validate_existing_response_file existing =
     set (map (\<lambda>r. original_row_idx (resp_generic_request r)) existing)"

text \<open>
  The state in which the loop over the file starts, at time \<open>t0\<close>, on the lines \<open>requests\<close>
  and the response file \<open>existing\<close>. The tracker is new; the time of the last rate-limit error
  it starts with (\<open>tl0\<close>) and its token limit (\<open>tpm\<close>) are set by code outside the processor.
\<close>

definition init ::
  "config \<Rightarrow> real \<Rightarrow> real \<Rightarrow> int option \<Rightarrow> generic_request list \<Rightarrow> generic_response list
     \<Rightarrow> state" where
  "init cfg t0 tl0 tpm requests existing =
     \<lparr>now = t0,
      file_lines = requests,
      completed_request_ids = validate_existing_response_file existing,
      main = ReadLine,
      tasks = [],
      pending_requests = [],
      pending_retries = [],
      queue_of_requests_to_retry = [],
      semaphore = max_concurrent_requests cfg,
      request_semaphore = max_batch cfg,
      status_tracker =
        \<lparr>num_tasks_started = 0, num_tasks_in_progress = 0, num_tasks_succeeded = 0,
         num_tasks_failed = 0, num_rate_limit_errors = 0, num_api_errors = 0,
         num_other_errors = 0, time_of_last_rate_limit_error = tl0,
         max_tokens_per_minute = tpm\<rparr>,
      output_tokens_window = [],
      response_file = existing,
      trace = []\<rparr>"

subsection \<open>The main coroutine: the loop over the file\<close>

text \<open>\<^verbatim>\<open>if status_tracker.max_tokens_per_minute is not None: ... else: token_estimate = None\<close>\<close>

definition token_estimate_of :: "config \<Rightarrow> state \<Rightarrow> api_request \<Rightarrow> token_count option" where
  "token_estimate_of cfg s request =
     (if max_tokens_per_minute (status_tracker s) \<noteq> None
      then Some (estimate_total_tokens cfg (messages (generic_request request)))
      else None)"

text \<open>
  \<^verbatim>\<open>cool_down_if_rate_limit_error\<close>: the time to sleep, if any.
\<close>

definition cool_down_if_rate_limit_error :: "config \<Rightarrow> real \<Rightarrow> status_tracker \<Rightarrow> real option" where
  "cool_down_if_rate_limit_error cfg t st =
     (let seconds_since_rate_limit_error = t - time_of_last_rate_limit_error st;
          remaining_seconds_to_pause =
            seconds_to_pause_on_rate_limit cfg - seconds_since_rate_limit_error
      in if remaining_seconds_to_pause > 0 then Some remaining_seconds_to_pause else None)"

text \<open>The task that \<^verbatim>\<open>asyncio.create_task(process_with_semaphore(req, blocked_tokens))\<close> creates.\<close>

definition new_task :: "api_request \<Rightarrow> token_count option \<Rightarrow> task" where
  "new_task request token_estimate =
     \<lparr>t_request = request, t_blocked = token_estimate, t_pc = AwaitSemaphore\<rparr>"

text \<open>The \<^verbatim>\<open>APIRequest\<close> that the loop builds for the line \<open>g\<close>.\<close>

definition new_request :: "config \<Rightarrow> state \<Rightarrow> generic_request \<Rightarrow> api_request" where
  "new_request cfg s g =
     \<lparr>task_id = num_tasks_started (status_tracker s),
      generic_request = g,
      api_specific_request = create_api_specific_request_online cfg g,
      attempts_left = max_retries cfg,
      result = [],
      created_at = now s\<rparr>"

text \<open>
  From \<^verbatim>\<open>consume_capacity\<close> to the end of the loop body: the task is created and added to
  \<^verbatim>\<open>pending_requests\<close>, \<open>num_tasks_started\<close> is counted up, and with \<open>3 * max_batch\<close> or more
  tasks pending the loop waits for the first of them to complete before it reads on.
\<close>

definition launch_first :: "config \<Rightarrow> api_request \<Rightarrow> token_count option \<Rightarrow> state \<Rightarrow> state" where
  "launch_first cfg request token_estimate s =
     (let h = length (tasks s);
          s1 = emit [ConsumeCapacity token_estimate, CreateTask h] s;
          s2 = s1\<lparr>tasks := tasks s1 @ [new_task request token_estimate],
                  pending_requests := pending_requests s1 @ [h],
                  status_tracker := (status_tracker s1)
                    \<lparr>num_tasks_started := num_tasks_started (status_tracker s1) + 1\<rparr>\<rparr>
      in s2\<lparr>main := (if length (pending_requests s2) \<ge> max_batch cfg * 3
                      then WaitFirstCompleted else ReadLine)\<rparr>)"

definition cool_down_first :: "config \<Rightarrow> api_request \<Rightarrow> token_count option \<Rightarrow> state \<Rightarrow> state" where
  "cool_down_first cfg request token_estimate s =
     (let s1 = emit [CoolDownCheck (time_of_last_rate_limit_error (status_tracker s))] s
      in case cool_down_if_rate_limit_error cfg (now s) (status_tracker s) of
           Some remaining \<Rightarrow> s1\<lparr>main := CoolDown request token_estimate (now s + remaining)\<rparr>
         | None \<Rightarrow> launch_first cfg request token_estimate s1)"

text \<open>
  \<^verbatim>\<open>while not status_tracker.has_capacity(token_estimate): await asyncio.sleep(0.3)\<close>, with
  \<open>b\<close> the answer of \<^verbatim>\<open>has_capacity\<close>.
\<close>

definition poll_first ::
  "config \<Rightarrow> bool \<Rightarrow> api_request \<Rightarrow> token_count option \<Rightarrow> state \<Rightarrow> state" where
  "poll_first cfg b request token_estimate s =
     (if \<not> b then s\<lparr>main := PollFirst request token_estimate (now s + 0.3)\<rparr>
      else cool_down_first cfg request token_estimate s)"

text \<open>The loop body from \<^verbatim>\<open>self._semaphore.acquire()\<close> on, for the line \<open>g\<close>.\<close>

definition acquire_first :: "config \<Rightarrow> bool \<Rightarrow> generic_request \<Rightarrow> state \<Rightarrow> state option" where
  "acquire_first cfg b g s =
     (case acquire (semaphore s) of
        None \<Rightarrow> None
      | Some sem \<Rightarrow>
          (let s1 = s\<lparr>semaphore := sem\<rparr>
           in if original_row_idx g \<in> completed_request_ids s1
              then Some (s1\<lparr>semaphore := release sem, main := ReadLine\<rparr>)
              else
                (let request = new_request cfg s1 g
                 in Some (poll_first cfg b request (token_estimate_of cfg s1 request) s1))))"

subsection \<open>The main coroutine: the retry loop\<close>

text \<open>
  The end of the outer loop body: \<^verbatim>\<open>asyncio.wait\<close> on the pending retries. With no pending
  retry the outer loop starts over at once; it can get here only with a queue that is not
  empty and \<open>max_batch = 0\<close>, and then it spins without reaching an \<^verbatim>\<open>await\<close> (\<open>None\<close>).
\<close>

definition retry_wait :: "state \<Rightarrow> state option" where
  "retry_wait s =
     (if pending_retries s \<noteq> []
      then Some (s\<lparr>main :=
             (if queue_of_requests_to_retry s \<noteq> []
              then WaitRetries FIRST_COMPLETED (Some (now s + 0.5))
              else WaitRetries ALL_COMPLETED None)\<rparr>)
      else None)"

text \<open>The head of the inner loop.\<close>

definition retry_inner :: "config \<Rightarrow> state \<Rightarrow> state option" where
  "retry_inner cfg s =
     (if queue_of_requests_to_retry s \<noteq> [] \<and> length (pending_retries s) < max_batch cfg
      then Some (s\<lparr>main := AcquireRetry\<rparr>)
      else retry_wait s)"

text \<open>The head of the outer loop; when it ends, the method returns.\<close>

definition retry_loop :: "config \<Rightarrow> state \<Rightarrow> state option" where
  "retry_loop cfg s =
     (if queue_of_requests_to_retry s \<noteq> [] \<or> pending_retries s \<noteq> []
      then retry_inner cfg s
      else Some (s\<lparr>main := Finished\<rparr>))"

definition launch_retry ::
  "config \<Rightarrow> api_request \<Rightarrow> token_count option \<Rightarrow> state \<Rightarrow> state option" where
  "launch_retry cfg request token_estimate s =
     (let h = length (tasks s);
          s1 = emit [ConsumeCapacity token_estimate, CreateTask h] s;
          s2 = s1\<lparr>tasks := tasks s1 @ [new_task request token_estimate],
                  pending_retries := pending_retries s1 @ [h]\<rparr>
      in retry_inner cfg s2)"

definition poll_retry ::
  "config \<Rightarrow> bool \<Rightarrow> api_request \<Rightarrow> token_count option \<Rightarrow> state \<Rightarrow> state option" where
  "poll_retry cfg b request token_estimate s =
     (if \<not> b then Some (s\<lparr>main := PollRetry request token_estimate (now s + 0.5)\<rparr>)
      else launch_retry cfg request token_estimate s)"

text \<open>\<^verbatim>\<open>retry_request = await queue_of_requests_to_retry.get()\<close> and what follows it.\<close>

definition queue_get :: "config \<Rightarrow> bool \<Rightarrow> state \<Rightarrow> state option" where
  "queue_get cfg b s =
     (case queue_of_requests_to_retry s of
        [] \<Rightarrow> None
      | retry_request # rest \<Rightarrow>
          (let s1 = s\<lparr>queue_of_requests_to_retry := rest\<rparr>
           in poll_retry cfg b retry_request (token_estimate_of cfg s1 retry_request) s1))"

definition acquire_retry :: "config \<Rightarrow> bool \<Rightarrow> state \<Rightarrow> state option" where
  "acquire_retry cfg b s =
     (case acquire (semaphore s) of
        None \<Rightarrow> None
      | Some sem \<Rightarrow>
          (let s1 = s\<lparr>semaphore := sem\<rparr>
           in if queue_of_requests_to_retry s1 = [] then Some (s1\<lparr>main := QueueGet\<rparr>)
              else queue_get cfg b s1))"

text \<open>
  \<^verbatim>\<open>asyncio.wait(pending_retries, return_when=..., timeout=...)\<close> returns when its condition
  on the pending tasks holds or the timeout has passed; the tasks not done stay pending.
\<close>

definition wait_ready :: "wait_mode \<Rightarrow> real option \<Rightarrow> nat list \<Rightarrow> state \<Rightarrow> bool" where
  "wait_ready mode deadline pending s =
     ((case mode of
         FIRST_COMPLETED \<Rightarrow> list_ex (task_done s) pending
       | ALL_COMPLETED \<Rightarrow> list_all (task_done s) pending)
      \<or> (case deadline of None \<Rightarrow> False | Some d \<Rightarrow> d \<le> now s))"

definition still_pending :: "state \<Rightarrow> nat list \<Rightarrow> nat list" where
  "still_pending s pending = filter (\<lambda>h. \<not> task_done s h) pending"

subsection \<open>The main coroutine: one step\<close>

definition after_file :: "config \<Rightarrow> state \<Rightarrow> state option" where
  "after_file cfg s =
     (if pending_requests s \<noteq> [] then Some (s\<lparr>main := Gather\<rparr>) else retry_loop cfg s)"

definition main_step :: "config \<Rightarrow> bool \<Rightarrow> state \<Rightarrow> state option" where
  "main_step cfg b s =
     (case main s of
        ReadLine \<Rightarrow>
          (case file_lines s of
             [] \<Rightarrow> after_file cfg s
           | g # rest \<Rightarrow> Some (s\<lparr>file_lines := rest, main := AcquireFirst g\<rparr>))
      | AcquireFirst g \<Rightarrow> acquire_first cfg b g s
      | PollFirst request token_estimate wake \<Rightarrow>
          (if now s < wake then None else Some (poll_first cfg b request token_estimate s))
      | CoolDown request token_estimate wake \<Rightarrow>
          (if now s < wake then None else Some (launch_first cfg request token_estimate s))
      | WaitFirstCompleted \<Rightarrow>
          (if wait_ready FIRST_COMPLETED None (pending_requests s) s
           then Some (s\<lparr>pending_requests := still_pending s (pending_requests s),
                        main := ReadLine\<rparr>)
           else None)
      | Gather \<Rightarrow>
          (if wait_ready ALL_COMPLETED None (pending_requests s) s then retry_loop cfg s
           else None)
      | AcquireRetry \<Rightarrow> acquire_retry cfg b s
      | QueueGet \<Rightarrow> queue_get cfg b s
      | PollRetry request token_estimate wake \<Rightarrow>
          (if now s < wake then None else poll_retry cfg b request token_estimate s)
      | WaitRetries mode deadline \<Rightarrow>
          (if wait_ready mode deadline (pending_retries s) s
           then retry_loop cfg (s\<lparr>pending_retries := still_pending s (pending_retries s)\<rparr>)
           else None)
      | Finished \<Rightarrow> None)"

subsection \<open>A task: \<^verbatim>\<open>process_with_semaphore\<close>\<close>

definition set_task :: "nat \<Rightarrow> task \<Rightarrow> state \<Rightarrow> state" where
  "set_task h t s = s\<lparr>tasks := (tasks s)[h := t]\<rparr>"

definition in_progress_add :: "int \<Rightarrow> state \<Rightarrow> state" where
  "in_progress_add d s =
     s\<lparr>status_tracker := (status_tracker s)
         \<lparr>num_tasks_in_progress := num_tasks_in_progress (status_tracker s) + d\<rparr>\<rparr>"

text \<open>
  The task enters \<^verbatim>\<open>async with request_semaphore\<close>, counts itself in progress and sends the
  HTTP call.
\<close>

definition task_start :: "nat \<Rightarrow> state \<Rightarrow> state option" where
  "task_start h s =
     (if h < length (tasks s) \<and> t_pc (tasks s ! h) = AwaitSemaphore \<and> 0 < request_semaphore s
      then Some (emit [InProgressInc h, HttpCall h]
             (set_task h ((tasks s ! h)\<lparr>t_pc := AwaitHttp\<rparr>)
               (in_progress_add 1 (s\<lparr>request_semaphore := request_semaphore s - 1\<rparr>))))
      else None)"

text \<open>
  The end of the task after the handler has returned: the \<^verbatim>\<open>finally\<close> of
  \<^verbatim>\<open>process_with_semaphore\<close> and the release of \<^verbatim>\<open>request_semaphore\<close>.
\<close>

definition task_exit :: "nat \<Rightarrow> state \<Rightarrow> state" where
  "task_exit h s =
     emit [InProgressDec h]
       (set_task h ((tasks s ! h)\<lparr>t_pc := TaskDone\<rparr>)
         (in_progress_add (- 1) (s\<lparr>request_semaphore := request_semaphore s + 1\<rparr>)))"

text \<open>
  The HTTP call of task \<open>h\<close> returns \<open>res\<close>: the handler runs to its next \<^verbatim>\<open>await\<close> (the append
  of the record to save) or, when the request goes back to the retry queue, to its end.
  The \<^verbatim>\<open>finally\<close> of the handler releases \<^verbatim>\<open>self._semaphore\<close>; on the permanent-failure branch
  the append is awaited inside the \<^verbatim>\<open>except\<close> block, before that \<^verbatim>\<open>finally\<close>.
\<close>

definition task_response :: "config \<Rightarrow> nat \<Rightarrow> http_result \<Rightarrow> state \<Rightarrow> state option" where
  "task_response cfg h res s =
     (if h < length (tasks s) \<and> t_pc (tasks s ! h) = AwaitHttp
      then
        (let t = tasks s ! h
         in case handle_response cfg (now s) h (t_request t) (t_blocked t) res
                   (status_tracker s) (output_tokens_window s) of
              (outcome, st, window, evs) \<Rightarrow>
                (let s1 = emit evs (s\<lparr>status_tracker := st, output_tokens_window := window\<rparr>)
                 in case outcome of
                      Succeeded generic_response \<Rightarrow>
                        Some (set_task h (t\<lparr>t_pc := AwaitAppendSuccess generic_response\<rparr>)
                               (s1\<lparr>semaphore := release (semaphore s1)\<rparr>))
                    | Requeued request \<Rightarrow>
                        Some (task_exit h
                               (emit [PutRetry h]
                                 (s1\<lparr>queue_of_requests_to_retry :=
                                        queue_of_requests_to_retry s1 @ [request],
                                      semaphore := release (semaphore s1)\<rparr>)))
                    | Exhausted request generic_response \<Rightarrow>
                        Some (set_task h
                               (t\<lparr>t_request := request,
                                  t_pc := AwaitAppendFailure generic_response\<rparr>) s1)))
      else None)"

text \<open>
  \<^verbatim>\<open>append_generic_response\<close> of task \<open>h\<close> has written its line: the rest of the handler and of
  the task runs. After a success: \<open>num_tasks_in_progress -= 1\<close>, \<open>num_tasks_succeeded += 1\<close>.
  After a permanent failure: \<open>num_tasks_in_progress -= 1\<close>, \<open>num_tasks_failed += 1\<close>, and the
  handler's \<^verbatim>\<open>finally\<close>.
\<close>

definition task_appended :: "nat \<Rightarrow> state \<Rightarrow> state option" where
  "task_appended h s =
     (if h < length (tasks s)
      then
        (case t_pc (tasks s ! h) of
           AwaitAppendSuccess generic_response \<Rightarrow>
             (let s1 = emit [AppendSuccess h]
                         (s\<lparr>response_file := response_file s @ [generic_response]\<rparr>);
                  s2 = emit [InProgressDec h, SucceededInc h]
                         (s1\<lparr>status_tracker := (status_tracker s1)
                               \<lparr>num_tasks_in_progress :=
                                   num_tasks_in_progress (status_tracker s1) - 1,
                                num_tasks_succeeded :=
                                   num_tasks_succeeded (status_tracker s1) + 1\<rparr>\<rparr>)
              in Some (task_exit h s2))
         | AwaitAppendFailure generic_response \<Rightarrow>
             (let s1 = emit [AppendFailure h]
                         (s\<lparr>response_file := response_file s @ [generic_response]\<rparr>);
                  s2 = emit [InProgressDec h, FailedInc h]
                         (s1\<lparr>status_tracker := (status_tracker s1)
                               \<lparr>num_tasks_in_progress :=
                                   num_tasks_in_progress (status_tracker s1) - 1,
                                num_tasks_failed :=
                                   num_tasks_failed (status_tracker s1) + 1\<rparr>,
                             semaphore := release (semaphore s1)\<rparr>)
              in Some (task_exit h s2))
         | _ \<Rightarrow> None)
      else None)"

subsection \<open>Runs\<close>

text \<open>
  The inputs of a run: time passes (\<open>Tick\<close>), the main coroutine continues (with the answer
  that \<^verbatim>\<open>has_capacity\<close> gives if it is asked), a task starts, the HTTP call of a task returns,
  the append of a task completes.
\<close>

datatype action =
    Tick real
  | MainStep bool
  | TaskStart nat
  | TaskResponse nat http_result
  | TaskAppended nat

definition step :: "config \<Rightarrow> action \<Rightarrow> state \<Rightarrow> state option" where
  "step cfg a s =
     (case a of
        Tick d \<Rightarrow> (if d < 0 then None else Some (s\<lparr>now := now s + d\<rparr>))
      | MainStep b \<Rightarrow> main_step cfg b s
      | TaskStart h \<Rightarrow> task_start h s
      | TaskResponse h res \<Rightarrow> task_response cfg h res s
      | TaskAppended h \<Rightarrow> task_appended h s)"

fun run :: "config \<Rightarrow> action list \<Rightarrow> state \<Rightarrow> state option" where
  "run cfg [] s = Some s"
| "run cfg (a # as) s = (case step cfg a s of None \<Rightarrow> None | Some s' \<Rightarrow> run cfg as s')"

section \<open>Properties of states\<close>

text \<open>The stations of the main coroutine in the loop over the file, up to \<^verbatim>\<open>asyncio.gather\<close>.\<close>

fun first_pass :: "main_pc \<Rightarrow> bool" where
  "first_pass ReadLine = True"
| "first_pass (AcquireFirst g) = True"
| "first_pass (PollFirst request token_estimate wake) = True"
| "first_pass (CoolDown request token_estimate wake) = True"
| "first_pass WaitFirstCompleted = True"
| "first_pass Gather = True"
| "first_pass pc = False"

text \<open>The stations between reading a line and creating its task.\<close>

fun admitting :: "main_pc \<Rightarrow> bool" where
  "admitting ReadLine = True"
| "admitting (AcquireFirst g) = True"
| "admitting (PollFirst request token_estimate wake) = True"
| "admitting (CoolDown request token_estimate wake) = True"
| "admitting pc = False"

text \<open>The number of tasks that have not run to their end.\<close>

definition live_tasks :: "state \<Rightarrow> nat" where
  "live_tasks s = length (filter (\<lambda>t. t_pc t \<noteq> TaskDone) (tasks s))"

text \<open>
  The pending sets of the main coroutine hold tasks that exist, every task outside them has
  run to its end, there are no retry tasks before the retry loop, and in the retry loop the
  file is read to its end and the tasks of the first pass are done.
\<close>

definition well_formed :: "state \<Rightarrow> bool" where
  "well_formed s =
     ((\<forall>h \<in> set (pending_requests s). h < length (tasks s))
      \<and> (\<forall>h \<in> set (pending_retries s). h < length (tasks s))
      \<and> (\<forall>h < length (tasks s).
            h \<in> set (pending_requests s) \<or> h \<in> set (pending_retries s)
            \<or> t_pc (tasks s ! h) = TaskDone)
      \<and> (first_pass (main s) \<longrightarrow> pending_retries s = [])
      \<and> (main s = Gather \<longrightarrow> file_lines s = [])
      \<and> (\<not> first_pass (main s) \<longrightarrow>
            file_lines s = [] \<and> (\<forall>h \<in> set (pending_requests s). t_pc (tasks s ! h) = TaskDone))
      \<and> (main s = Finished \<longrightarrow>
            queue_of_requests_to_retry s = [] \<and> pending_retries s = []))"

subsection \<open>Where a step of the main coroutine starts from\<close>

text \<open>
  The two ways into the \<^verbatim>\<open>has_capacity\<close> loop of the first pass with the request \<open>request\<close>
  and the estimate \<open>token_estimate\<close>: from the acquisition of \<^verbatim>\<open>self._semaphore\<close> for a line that
  is not yet completed (which leaves the semaphore as \<open>sem\<close>), or from the end of a sleep.
\<close>

definition first_origin ::
  "config \<Rightarrow> state \<Rightarrow> api_request \<Rightarrow> token_count option \<Rightarrow> nat option \<Rightarrow> bool" where
  "first_origin cfg s request token_estimate sem =
     ((\<exists>g. main s = AcquireFirst g \<and> acquire (semaphore s) = Some sem
           \<and> original_row_idx g \<notin> completed_request_ids s
           \<and> request = new_request cfg s g
           \<and> token_estimate = token_estimate_of cfg s request)
      \<or> (\<exists>wake. main s = PollFirst request token_estimate wake \<and> wake \<le> now s
            \<and> sem = semaphore s))"

text \<open>
  The same for the retry loop: the request is taken from the head of the queue (which leaves
  the queue as \<open>rest\<close>), or the main coroutine already held it while it slept.
\<close>

definition retry_origin ::
  "config \<Rightarrow> state \<Rightarrow> api_request \<Rightarrow> token_count option \<Rightarrow> nat option \<Rightarrow> api_request list
     \<Rightarrow> bool" where
  "retry_origin cfg s request token_estimate sem rest =
     ((main s = AcquireRetry \<and> acquire (semaphore s) = Some sem
         \<and> queue_of_requests_to_retry s = request # rest
         \<and> token_estimate = token_estimate_of cfg s request)
      \<or> (main s = QueueGet \<and> sem = semaphore s
            \<and> queue_of_requests_to_retry s = request # rest
            \<and> token_estimate = token_estimate_of cfg s request)
      \<or> (\<exists>wake. main s = PollRetry request token_estimate wake \<and> wake \<le> now s
            \<and> sem = semaphore s \<and> rest = queue_of_requests_to_retry s))"

text \<open>The request that the main coroutine holds while it sleeps in the retry loop.\<close>

fun held_retry :: "main_pc \<Rightarrow> api_request list" where
  "held_retry (PollRetry request token_estimate wake) = [request]"
| "held_retry pc = []"

text \<open>The station after the retry loop has looked at its queue and its pending tasks.\<close>

definition retry_station :: "config \<Rightarrow> state \<Rightarrow> main_pc \<Rightarrow> bool" where
  "retry_station cfg s pc =
     ((pc = Finished \<and> queue_of_requests_to_retry s = [] \<and> pending_retries s = [])
      \<or> (pc = AcquireRetry \<and> queue_of_requests_to_retry s \<noteq> []
            \<and> length (pending_retries s) < max_batch cfg)
      \<or> (pc = WaitRetries
                 (if queue_of_requests_to_retry s \<noteq> [] then FIRST_COMPLETED else ALL_COMPLETED)
                 (if queue_of_requests_to_retry s \<noteq> [] then Some (now s + 0.5) else None)
            \<and> pending_retries s \<noteq> []))"

subsection \<open>What an attempt leaves behind\<close>

text \<open>The attempt handler changes none of the task counters and not the token limit.\<close>

definition same_task_counters :: "status_tracker \<Rightarrow> status_tracker \<Rightarrow> bool" where
  "same_task_counters st st' =
     (num_tasks_started st' = num_tasks_started st
      \<and> num_tasks_in_progress st' = num_tasks_in_progress st
      \<and> num_tasks_succeeded st' = num_tasks_succeeded st
      \<and> num_tasks_failed st' = num_tasks_failed st
      \<and> max_tokens_per_minute st' = max_tokens_per_minute st)"

text \<open>The calls recorded by an attempt of task \<open>h\<close> that ends in the \<^verbatim>\<open>except\<close> block.\<close>

definition failure_events :: "nat \<Rightarrow> event list \<Rightarrow> bool" where
  "failure_events h evs =
     (set evs \<subseteq> {RateLimitError h, UpdateStats h, AttemptFailed h} \<and> AttemptFailed h \<in> set evs)"

subsection \<open>Accounting of started requests\<close>

text \<open>
  Every started request is counted as succeeded or failed, or it is carried by a task that
  has not run to its end, by the retry queue, or by the main coroutine.
\<close>

definition accounted :: "state \<Rightarrow> bool" where
  "accounted s =
     (num_tasks_started (status_tracker s) =
        num_tasks_succeeded (status_tracker s) + num_tasks_failed (status_tracker s)
        + int (live_tasks s) + int (length (queue_of_requests_to_retry s))
        + int (length (held_retry (main s))))"

subsection \<open>The bound on the pending tasks of the first pass\<close>

text \<open>
  \<^verbatim>\<open>pending_requests\<close> never holds more than \<open>3 * max_batch\<close> tasks, and it holds that many
  only while the main coroutine waits for the first of them to complete.
\<close>

definition backpressure :: "config \<Rightarrow> state \<Rightarrow> bool" where
  "backpressure cfg s =
     (length (pending_requests s) \<le> 3 * max_batch cfg
      \<and> (main s \<noteq> WaitFirstCompleted \<longrightarrow> length (pending_requests s) < 3 * max_batch cfg))"

subsection \<open>The record that a task is about to append\<close>

text \<open>
  A task that waits for its append holds the record to write: after a success the response
  of the call, for the request of the task; after a permanent failure a record without a
  message, with the errors of the request as strings, for a request with no attempt left.
\<close>

definition append_pending :: "task \<Rightarrow> bool" where
  "append_pending t =
     (case t_pc t of
        AwaitAppendSuccess resp \<Rightarrow>
          resp_generic_request resp = generic_request (t_request t)
          \<and> response_message resp \<noteq> None \<and> response_errors resp = None
          \<and> token_usage resp \<noteq> None
      | AwaitAppendFailure resp \<Rightarrow>
          resp_generic_request resp = generic_request (t_request t)
          \<and> response_message resp = None
          \<and> response_errors resp = Some (map exn_str (result (t_request t)))
          \<and> attempts_left (t_request t) \<le> 0
      | _ \<Rightarrow> True)"

definition tasks_ok :: "state \<Rightarrow> bool" where
  "tasks_ok s = list_all append_pending (tasks s)"

subsection \<open>Rows: which lines are logged and which are still to be logged\<close>

definition row_of_request :: "api_request \<Rightarrow> int" where
  "row_of_request request = original_row_idx (generic_request request)"

definition row_of_response :: "generic_response \<Rightarrow> int" where
  "row_of_response r = original_row_idx (resp_generic_request r)"

text \<open>The request that the main coroutine holds while it sleeps in the loop over the file.\<close>

fun held_first :: "main_pc \<Rightarrow> api_request list" where
  "held_first (PollFirst request token_estimate wake) = [request]"
| "held_first (CoolDown request token_estimate wake) = [request]"
| "held_first pc = []"

text \<open>The line that the main coroutine has read and not yet looked at.\<close>

fun line_in_hand :: "main_pc \<Rightarrow> generic_request list" where
  "line_in_hand (AcquireFirst g) = [g]"
| "line_in_hand pc = []"

text \<open>The requests that no task has: those on the retry queue and with the main coroutine.\<close>

definition held_requests :: "state \<Rightarrow> api_request list" where
  "held_requests s = queue_of_requests_to_retry s @ held_retry (main s) @ held_first (main s)"

text \<open>The rows of the tasks that have not run to their end.\<close>

definition rows_of_tasks :: "task list \<Rightarrow> int set" where
  "rows_of_tasks ts =
     set (map (\<lambda>t. row_of_request (t_request t)) (filter (\<lambda>t. t_pc t \<noteq> TaskDone) ts))"

definition logged_rows :: "state \<Rightarrow> int set" where
  "logged_rows s = set (map row_of_response (response_file s))"

definition rows_to_log :: "state \<Rightarrow> int set" where
  "rows_to_log s =
     set (map original_row_idx (file_lines s @ line_in_hand (main s)))
     \<union> rows_of_tasks (tasks s)
     \<union> set (map row_of_request (held_requests s))"

text \<open>
  The state of a run that started with the response file \<open>existing\<close>: the file still starts
  with \<open>existing\<close>, and nothing was written and no request was made for a row of \<open>existing\<close>.
\<close>

definition resuming :: "generic_response list \<Rightarrow> state \<Rightarrow> bool" where
  "resuming existing s =
     (completed_request_ids s = validate_existing_response_file existing
      \<and> (\<exists>new. response_file s = existing @ new
            \<and> (\<forall>r \<in> set new. row_of_response r \<notin> validate_existing_response_file existing))
      \<and> (\<forall>t \<in> set (tasks s).
            row_of_request (t_request t) \<notin> validate_existing_response_file existing)
      \<and> (\<forall>r \<in> set (held_requests s).
            row_of_request r \<notin> validate_existing_response_file existing))"

text \<open>Every row of \<open>rows\<close> is logged or still to be logged, and no other row is.\<close>

definition rows_conserved :: "int set \<Rightarrow> state \<Rightarrow> bool" where
  "rows_conserved rows s = (rows = logged_rows s \<union> rows_to_log s)"

subsection \<open>The cool-down after a rate-limit error\<close>

text \<open>
  In a record of calls (latest first): whenever an HTTP call is sent, every rate-limit error
  recorded before it lies at least \<open>pause\<close> seconds back.
\<close>

fun no_call_during_cool_down :: "real \<Rightarrow> (real \<times> event) list \<Rightarrow> bool" where
  "no_call_during_cool_down pause [] = True"
| "no_call_during_cool_down pause ((t, e) # earlier) =
     ((case e of
         HttpCall h \<Rightarrow>
           list_all (\<lambda>(t0, e0). case e0 of RateLimitError h0 \<Rightarrow> t0 + pause \<le> t | _ \<Rightarrow> True)
             earlier
       | _ \<Rightarrow> True)
      \<and> no_call_during_cool_down pause earlier)"

text \<open>The time of the latest rate-limit error in a record of calls, \<open>tl0\<close> if it has none.\<close>

fun last_rate_limit_error :: "real \<Rightarrow> (real \<times> event) list \<Rightarrow> real" where
  "last_rate_limit_error tl0 [] = tl0"
| "last_rate_limit_error tl0 ((t, e) # earlier) =
     (case e of RateLimitError h \<Rightarrow> t | _ \<Rightarrow> last_rate_limit_error tl0 earlier)"

text \<open>
  The latest call of \<^verbatim>\<open>cool_down_if_rate_limit_error\<close> since a task was created: the time of
  the last rate-limit error that it read, and the record of calls before it.
\<close>

fun cool_down_check :: "(real \<times> event) list \<Rightarrow> (real \<times> (real \<times> event) list) option" where
  "cool_down_check [] = None"
| "cool_down_check ((t, e) # earlier) =
     (case e of
        CoolDownCheck checked \<Rightarrow> Some (checked, earlier)
      | CreateTask h \<Rightarrow> None
      | _ \<Rightarrow> cool_down_check earlier)"

text \<open>
  The same for a record that ends with the creation of task \<open>h\<close>, right after
  \<^verbatim>\<open>consume_capacity\<close>: the cool-down check made for the request of that task.
\<close>

fun admission_check ::
  "nat \<Rightarrow> (real \<times> event) list \<Rightarrow> (real \<times> (real \<times> event) list) option" where
  "admission_check h ((t, CreateTask h') # (t', ConsumeCapacity est) # earlier) =
     (if h' = h then cool_down_check earlier else None)"
| "admission_check h tr = None"

text \<open>The tracker holds the time of the latest rate-limit error of the record.\<close>

definition last_error_recorded :: "real \<Rightarrow> state \<Rightarrow> bool" where
  "last_error_recorded tl0 s =
     (time_of_last_rate_limit_error (status_tracker s) = last_rate_limit_error tl0 (trace s))"

text \<open>
  While the main coroutine sleeps in \<^verbatim>\<open>cool_down_if_rate_limit_error\<close>, it sleeps until
  \<open>seconds_to_pause_on_rate_limit\<close> after the error time that its check read.
\<close>

definition cooling :: "config \<Rightarrow> real \<Rightarrow> state \<Rightarrow> bool" where
  "cooling cfg tl0 s =
     (\<forall>request est wake. main s = CoolDown request est wake \<longrightarrow>
        (\<exists>checked before. cool_down_check (trace s) = Some (checked, before)
           \<and> checked = last_rate_limit_error tl0 before
           \<and> wake = checked + seconds_to_pause_on_rate_limit cfg))"

subsection \<open>Capacity: consumed before the task, freed before the success is logged\<close>

text \<open>
  \<^verbatim>\<open>token_estimate\<close> as both loops of \<^verbatim>\<open>process_requests_from_file\<close> compute it for a
  request, under the token limit \<open>tpm\<close> of the tracker.
\<close>

definition estimate_for :: "config \<Rightarrow> int option \<Rightarrow> api_request \<Rightarrow> token_count option" where
  "estimate_for cfg tpm request =
     (if tpm \<noteq> None then Some (estimate_total_tokens cfg (messages (generic_request request)))
      else None)"

text \<open>
  In a record of calls (latest first): the argument of the \<^verbatim>\<open>consume_capacity\<close> that comes
  right before the creation of task \<open>h\<close>; \<open>None\<close> if the task is not created there or
  something else comes right before it.
\<close>

fun reserved_for :: "nat \<Rightarrow> (real \<times> event) list \<Rightarrow> token_count option option" where
  "reserved_for h [] = None"
| "reserved_for h ((t, e) # earlier) =
     (if e = CreateTask h
      then (case earlier of
              (t', ConsumeCapacity est) # before \<Rightarrow> Some est
            | _ \<Rightarrow> None)
      else reserved_for h earlier)"

text \<open>The task whose attempt an event frees capacity for, and the task whose attempt failed.\<close>

fun freed_task :: "event \<Rightarrow> nat option" where
  "freed_task (FreeCapacity h used_capacity blocked_capacity) = Some h"
| "freed_task (TrackerFreeCapacity h used_capacity blocked_capacity) = Some h"
| "freed_task e = None"

fun failed_task :: "event \<Rightarrow> nat option" where
  "failed_task (AttemptFailed h) = Some h"
| "failed_task e = None"

text \<open>
  What every call of a record has before it. The creation of a task and its HTTP call: the
  \<^verbatim>\<open>consume_capacity\<close> for this task. The append of a success: \<^verbatim>\<open>_free_capacity\<close> for this
  task, with the blocked capacity that was consumed for it, and under a token limit
  (\<open>limited\<close>) the tracker's \<^verbatim>\<open>free_capacity\<close> with it. A failed attempt: no freeing for this
  task, and the other way round.
\<close>

fun capacity_order :: "bool \<Rightarrow> (real \<times> event) list \<Rightarrow> bool" where
  "capacity_order limited [] = True"
| "capacity_order limited ((t, e) # earlier) =
     ((case e of
         CreateTask h \<Rightarrow> reserved_for h ((t, e) # earlier) \<noteq> None
       | HttpCall h \<Rightarrow> reserved_for h earlier \<noteq> None
       | AppendSuccess h \<Rightarrow>
           list_ex (\<lambda>x. case snd x of
                          FreeCapacity h' used_capacity blocked_capacity \<Rightarrow>
                            h' = h \<and> reserved_for h earlier = Some blocked_capacity
                        | _ \<Rightarrow> False) earlier
           \<and> (limited \<longrightarrow>
                list_ex (\<lambda>x. case snd x of
                               TrackerFreeCapacity h' used_capacity blocked_capacity \<Rightarrow>
                                 h' = h \<and> reserved_for h earlier = Some blocked_capacity
                             | _ \<Rightarrow> False) earlier)
       | FreeCapacity h used_capacity blocked_capacity \<Rightarrow>
           \<not> list_ex (\<lambda>x. failed_task (snd x) = Some h) earlier
       | TrackerFreeCapacity h used_capacity blocked_capacity \<Rightarrow>
           \<not> list_ex (\<lambda>x. failed_task (snd x) = Some h) earlier
       | AttemptFailed h \<Rightarrow> \<not> list_ex (\<lambda>x. freed_task (snd x) = Some h) earlier
       | _ \<Rightarrow> True)
      \<and> capacity_order limited earlier)"

text \<open>The token limit of the tracker stays what it was at the start.\<close>

definition limit_fixed :: "int option \<Rightarrow> state \<Rightarrow> bool" where
  "limit_fixed tpm s = (max_tokens_per_minute (status_tracker s) = tpm)"

text \<open>
  The estimate that a task or the main coroutine holds for a request is the token estimate
  of this request.
\<close>

fun held_estimates :: "main_pc \<Rightarrow> (api_request \<times> token_count option) list" where
  "held_estimates (PollFirst request token_estimate wake) = [(request, token_estimate)]"
| "held_estimates (CoolDown request token_estimate wake) = [(request, token_estimate)]"
| "held_estimates (PollRetry request token_estimate wake) = [(request, token_estimate)]"
| "held_estimates pc = []"

definition estimates :: "config \<Rightarrow> int option \<Rightarrow> state \<Rightarrow> bool" where
  "estimates cfg tpm s =
     ((\<forall>t \<in> set (tasks s). t_blocked t = estimate_for cfg tpm (t_request t))
      \<and> (\<forall>x \<in> set (held_estimates (main s)). snd x = estimate_for cfg tpm (fst x)))"

text \<open>The record has, for every task, the \<^verbatim>\<open>consume_capacity\<close> with what the task blocks.\<close>

definition reserved :: "state \<Rightarrow> bool" where
  "reserved s =
     (\<forall>h < length (tasks s). reserved_for h (trace s) = Some (t_blocked (tasks s ! h)))"

text \<open>
  An attempt that has failed or has freed capacity belongs to a task that exists and has
  got the answer to its HTTP call.
\<close>

definition answered :: "state \<Rightarrow> bool" where
  "answered s =
     (\<forall>x \<in> set (trace s). \<forall>h.
        (failed_task (snd x) = Some h \<or> freed_task (snd x) = Some h) \<longrightarrow>
        h < length (tasks s) \<and> t_pc (tasks s ! h) \<noteq> AwaitSemaphore
        \<and> t_pc (tasks s ! h) \<noteq> AwaitHttp)"

text \<open>
  A task that is about to append a success has freed capacity: with what the task blocks and
  with the usage that the response to append reports.
\<close>

definition freed :: "int option \<Rightarrow> (real \<times> event) list \<Rightarrow> nat \<Rightarrow> task \<Rightarrow> bool" where
  "freed tpm tr h t =
     (\<forall>resp. t_pc t = AwaitAppendSuccess resp \<longrightarrow>
        (\<exists>usage. token_usage resp = Some usage
           \<and> FreeCapacity h
                \<lparr>tc_input = prompt_tokens usage, tc_output = completion_tokens usage\<rparr>
                (t_blocked t) \<in> snd ` set tr
           \<and> (tpm \<noteq> None \<longrightarrow>
                TrackerFreeCapacity h
                  \<lparr>tc_input = prompt_tokens usage, tc_output = completion_tokens usage\<rparr>
                  (t_blocked t) \<in> snd ` set tr)))"

definition freed_before_append :: "int option \<Rightarrow> state \<Rightarrow> bool" where
  "freed_before_append tpm s = (\<forall>h < length (tasks s). freed tpm (trace s) h (tasks s ! h))"

definition capacity_ordered :: "int option \<Rightarrow> state \<Rightarrow> bool" where
  "capacity_ordered tpm s = capacity_order (tpm \<noteq> None) (trace s)"

subsection \<open>The attempts made for one line\<close>

text \<open>
  A started line is known by its \<open>task_id\<close>, the value of \<open>num_tasks_started\<close> when its request
  was built; the retries of the line carry the same request object. In the record of calls,
  the events of task \<open>h\<close> belong to the line of the request of task \<open>h\<close>.
\<close>

fun called_task :: "event \<Rightarrow> nat option" where
  "called_task (HttpCall h) = Some h"
| "called_task e = None"

fun logged_task :: "event \<Rightarrow> nat option" where
  "logged_task (AppendSuccess h) = Some h"
| "logged_task (AppendFailure h) = Some h"
| "logged_task e = None"

text \<open>The number of events of the kind \<open>sel\<close> in the record \<open>tr\<close> that belong to the line \<open>k\<close>.\<close>

definition count_for ::
  "(event \<Rightarrow> nat option) \<Rightarrow> task list \<Rightarrow> int \<Rightarrow> (real \<times> event) list \<Rightarrow> nat" where
  "count_for sel ts k tr =
     length (filter (\<lambda>x. case sel (snd x) of
                             Some h \<Rightarrow> task_id (t_request (ts ! h)) = k
                           | None \<Rightarrow> False) tr)"

text \<open>The HTTP calls sent for the line \<open>k\<close>, and the records appended for it.\<close>

definition attempts_made :: "state \<Rightarrow> int \<Rightarrow> nat" where
  "attempts_made s k = count_for called_task (tasks s) k (trace s)"

definition records_logged :: "state \<Rightarrow> int \<Rightarrow> nat" where
  "records_logged s k = count_for logged_task (tasks s) k (trace s)"

text \<open>The events that name a task name a task that exists.\<close>

definition known :: "state \<Rightarrow> bool" where
  "known s =
     (\<forall>x \<in> set (trace s). \<forall>h.
        (called_task (snd x) = Some h \<or> logged_task (snd x) = Some h) \<longrightarrow> h < length (tasks s))"

text \<open>
  The requests of the tasks and of the retry queue are of started lines; the request that
  the loop over the file holds is the next to be started and has all its attempts left.
\<close>

definition ids_started :: "config \<Rightarrow> state \<Rightarrow> bool" where
  "ids_started cfg s =
     ((\<forall>t \<in> set (tasks s). task_id (t_request t) < num_tasks_started (status_tracker s))
      \<and> (\<forall>r \<in> set (queue_of_requests_to_retry s @ held_retry (main s)).
            task_id r < num_tasks_started (status_tracker s))
      \<and> (\<forall>r \<in> set (held_first (main s)).
            task_id r = num_tasks_started (status_tracker s)
            \<and> attempts_left r = max_retries cfg))"

text \<open>
  The HTTP calls that the line \<open>k\<close> can still get: a request that waits for a task or in a
  task for the semaphore, one call and as many as it has attempts left; a request whose
  call is on its way, as many as it has attempts left.
\<close>

definition calls_left_of_request :: "int \<Rightarrow> api_request \<Rightarrow> int" where
  "calls_left_of_request k r = (if task_id r = k then 1 + max 0 (attempts_left r) else 0)"

definition calls_left_of_task :: "int \<Rightarrow> task \<Rightarrow> int" where
  "calls_left_of_task k t =
     (if task_id (t_request t) = k
      then (case t_pc t of
              AwaitSemaphore \<Rightarrow> 1 + max 0 (attempts_left (t_request t))
            | AwaitHttp \<Rightarrow> max 0 (attempts_left (t_request t))
            | _ \<Rightarrow> 0)
      else 0)"

definition attempt_budget :: "config \<Rightarrow> int \<Rightarrow> state \<Rightarrow> bool" where
  "attempt_budget cfg k s =
     (int (attempts_made s k)
        + sum_list (map (calls_left_of_task k) (tasks s))
        + sum_list (map (calls_left_of_request k)
                      (queue_of_requests_to_retry s @ held_retry (main s)))
      \<le> max_retries cfg + 1)"

text \<open>
  The line \<open>k\<close> is in one place at most: its request is with a task that has not run to its
  end, on the retry queue or with the retry loop, or a record for it is in the file.
\<close>

definition carried_request :: "int \<Rightarrow> api_request \<Rightarrow> int" where
  "carried_request k r = (if task_id r = k then 1 else 0)"

definition carried_by_task :: "int \<Rightarrow> task \<Rightarrow> int" where
  "carried_by_task k t = (if task_id (t_request t) = k \<and> t_pc t \<noteq> TaskDone then 1 else 0)"

definition logged_once :: "int \<Rightarrow> state \<Rightarrow> bool" where
  "logged_once k s =
     (int (records_logged s k)
        + sum_list (map (carried_by_task k) (tasks s))
        + sum_list (map (carried_request k)
                      (queue_of_requests_to_retry s @ held_retry (main s)))
      \<le> 1)"

section \<open>Concrete inputs\<close>

definition example_config :: config where
  "example_config =
     \<lparr>max_retries = 3,
      seconds_to_pause_on_rate_limit = 5,
      invalid_finish_reasons = [''content_filter'', ''length''],
      max_batch = 1,
      max_concurrent_requests = None,
      return_completions_object = False,
      estimate_total_tokens = (\<lambda>ms. \<lparr>tc_input = 4 * int (length ms) + 2, tc_output = 0\<rparr>),
      create_api_specific_request_online = model,
      completion_cost = (\<lambda>response. Some 0),
      response_format_ok = (\<lambda>m. True)\<rparr>"

definition example_generic_request :: "int \<Rightarrow> generic_request" where
  "example_generic_request i =
     \<lparr>original_row_idx = i, model = ''gpt-4o-mini'', messages = [[(''role'', ''user'')]]\<rparr>"

definition example_request :: api_request where
  "example_request =
     \<lparr>task_id = 0,
      generic_request = example_generic_request 0,
      api_specific_request = ''gpt-4o-mini'',
      attempts_left = 3,
      result = [],
      created_at = 0\<rparr>"

definition example_tracker :: status_tracker where
  "example_tracker =
     \<lparr>num_tasks_started = 0, num_tasks_in_progress = 0, num_tasks_succeeded = 0,
      num_tasks_failed = 0, num_rate_limit_errors = 0, num_api_errors = 0,
      num_other_errors = 0, time_of_last_rate_limit_error = 0,
      max_tokens_per_minute = Some 100000\<rparr>"

definition read_timeout :: exn where
  "read_timeout = \<lparr>exn_class = ''ReadTimeout'', exn_str = []\<rparr>"

definition ok_body :: response_json where
  "ok_body =
     CompletionBody ''ok'' (Some ''stop'')
       \<lparr>prompt_tokens = 10, completion_tokens = 5, total_tokens = 15\<rparr>"

text \<open>
  One line that succeeds at its first call: the main coroutine reads it and creates its task,
  the task sends the call, gets a completion and appends it, and the main coroutine passes
  \<^verbatim>\<open>asyncio.gather\<close> and the retry loop.
\<close>

definition happy_schedule :: "action list" where
  "happy_schedule =
     [MainStep True, MainStep True, TaskStart 0, TaskResponse 0 (HttpReturned 200 ok_body),
      TaskAppended 0, MainStep True, MainStep True]"

text \<open>Three lines whose tasks are created while none of them has started.\<close>

definition full_batch_schedule :: "action list" where
  "full_batch_schedule =
     [MainStep True, MainStep True, MainStep True, MainStep True, MainStep True, MainStep True]"

text \<open>
  A run that resumes: the response file already holds the record of row 7, and the input
  has the rows 7 and 8. The second schedule is the run on the same input from an empty
  response file.
\<close>

definition example_response :: "int \<Rightarrow> generic_response" where
  "example_response i =
     \<lparr>response_message = Some (Content ''ok''),
      response_errors = None,
      raw_request = ''gpt-4o-mini'',
      raw_response = None,
      resp_generic_request = example_generic_request i,
      resp_created_at = 0,
      finished_at = 1,
      token_usage = Some \<lparr>prompt_tokens = 10, completion_tokens = 5, total_tokens = 15\<rparr>,
      response_cost = Some 0,
      finish_reason = Some ''stop''\<rparr>"

definition resume_schedule :: "action list" where
  "resume_schedule =
     [MainStep True, MainStep True, MainStep True, MainStep True, TaskStart 0,
      TaskResponse 0 (HttpReturned 200 ok_body), TaskAppended 0, MainStep True, MainStep True]"

definition fresh_schedule :: "action list" where
  "fresh_schedule =
     [MainStep True, MainStep True, MainStep True, MainStep True,
      TaskStart 0, TaskResponse 0 (HttpReturned 200 ok_body), TaskAppended 0,
      TaskStart 1, TaskResponse 1 (HttpReturned 200 ok_body), TaskAppended 1,
      MainStep True, MainStep True]"

text \<open>
  A rate-limit error and what follows it. In the first schedule the tasks of the rows 7 and 8
  are created, the call of task 0 gets a rate-limit error at time 100, and one second later
  task 1 sends its call. In the second schedule the error comes before the line of row 8 is read:
  the main coroutine sleeps in \<^verbatim>\<open>cool_down_if_rate_limit_error\<close>, and five seconds pass.
\<close>

definition rate_limit_body :: response_json where
  "rate_limit_body = ErrorBody (Some ''Rate limit reached for requests'')"

definition two_rows :: "generic_request list" where
  "two_rows = [example_generic_request 7, example_generic_request 8]"

definition no_cool_down_schedule :: "action list" where
  "no_cool_down_schedule =
     [MainStep True, MainStep True, MainStep True, MainStep True,
      TaskStart 0, TaskResponse 0 (HttpReturned 429 rate_limit_body), Tick 1,
      TaskStart 1]"

definition cool_down_schedule :: "action list" where
  "cool_down_schedule =
     [MainStep True, MainStep True,
      TaskStart 0, TaskResponse 0 (HttpReturned 429 rate_limit_body),
      MainStep True, MainStep True, Tick 5]"

text \<open>
  Two lines: the call of task 0 gets a rate-limit error, the call of task 1 a completion,
  which task 1 appends.
\<close>

definition capacity_schedule :: "action list" where
  "capacity_schedule =
     [MainStep True, MainStep True, MainStep True, MainStep True,
      TaskStart 0, TaskResponse 0 (HttpReturned 429 rate_limit_body), Tick 1,
      TaskStart 1, TaskResponse 1 (HttpReturned 200 ok_body), TaskAppended 1]"

text \<open>The events of a record that concern the capacity, in the order they were made.\<close>

fun capacity_event :: "event \<Rightarrow> bool" where
  "capacity_event (ConsumeCapacity est) = True"
| "capacity_event (CreateTask h) = True"
| "capacity_event (HttpCall h) = True"
| "capacity_event (FreeCapacity h used_capacity blocked_capacity) = True"
| "capacity_event (TrackerFreeCapacity h used_capacity blocked_capacity) = True"
| "capacity_event (AttemptFailed h) = True"
| "capacity_event (AppendSuccess h) = True"
| "capacity_event e = False"

definition capacity_events :: "state \<Rightarrow> event list" where
  "capacity_events s = filter capacity_event (rev (map snd (trace s)))"

text \<open>The configuration with \<open>max_batch = 0\<close>, and the steps that read one line and create its task.\<close>

definition zero_batch_config :: config where
  "zero_batch_config = example_config\<lparr>max_batch := 0\<rparr>"

definition one_line_schedule :: "action list" where
  "one_line_schedule = [MainStep True, MainStep True]"

text \<open>
  One retry allowed, and a line whose two calls both get a reply with status 500: after the
  second the task of the retry holds the permanent-failure record. And the configuration
  with \<open>max_retries = -1\<close>.
\<close>

definition one_retry_config :: config where
  "one_retry_config = example_config\<lparr>max_retries := 1\<rparr>"

definition exhaust_schedule :: "action list" where
  "exhaust_schedule =
     [MainStep True, MainStep True, TaskStart 0, TaskResponse 0 (HttpReturned 500 MalformedBody),
      MainStep True, MainStep True, MainStep True,
      TaskStart 1, TaskResponse 1 (HttpReturned 500 MalformedBody)]"

definition no_retry_config :: config where
  "no_retry_config = example_config\<lparr>max_retries := - 1\<rparr>"

definition first_call_schedule :: "action list" where
  "first_call_schedule = [MainStep True, MainStep True, TaskStart 0]"

section \<open>Theorems\<close>

subsection \<open>The moving window of output tokens\<close>

lemma observed_window_snoc:
  "observed_window (xs @ [x]) = add_output_token_moving_window (observed_window xs) x"
  by (simp add: observed_window_def)

lemma observed_window_last:
  "observed_window xs = drop (length xs - 50) xs"
proof (induction xs rule: rev_induct)
  case Nil
  show ?case by (simp add: observed_window_def)
next
  case (snoc x xs)
  show ?case
  proof (cases "50 \<le> length xs")
    case True
    then have ne: "drop (length xs - 50) xs \<noteq> []" by simp
    have "tl (drop (length xs - 50) xs @ [x]) = drop (Suc (length xs - 50)) xs @ [x]"
      using ne by (simp add: tl_drop drop_Suc)
    moreover have "Suc (length xs) - 50 = Suc (length xs - 50)" using True by simp
    ultimately show ?thesis
      using True
      by (simp add: observed_window_snoc snoc.IH add_output_token_moving_window_def
            deque_append_def MAX_OUTPUT_MVA_WINDOW_def Let_def)
  next
    case False
    then show ?thesis
      by (simp add: observed_window_snoc snoc.IH add_output_token_moving_window_def
            deque_append_def MAX_OUTPUT_MVA_WINDOW_def Let_def)
  qed
qed

text \<open>
  Claim C10. The window of output tokens never holds more than
  \<open>MAX_OUTPUT_MVA_WINDOW = 50\<close> values: after the values \<open>xs\<close> were observed it holds the last
  50 of them. \<open>output_tokens_moving_average\<close> never raises \<^verbatim>\<open>ZeroDivisionError\<close>, whatever the
  window, and on the empty window it divides the sum 0 by 50 and returns 0.
\<close>

theorem moving_average_window_bounded_total:
  "length (observed_window xs) \<le> MAX_OUTPUT_MVA_WINDOW
   \<and> MAX_OUTPUT_MVA_WINDOW = 50
   \<and> observed_window xs = drop (length xs - 50) xs
   \<and> output_tokens_moving_average window \<noteq> Inl ZeroDivisionError
   \<and> output_tokens_moving_average [] = py_truediv 0 50
   \<and> output_tokens_moving_average [] = Inr 0"
proof -
  have "length (observed_window xs) \<le> MAX_OUTPUT_MVA_WINDOW"
    by (simp add: observed_window_last MAX_OUTPUT_MVA_WINDOW_def)
  moreover have "output_tokens_moving_average window \<noteq> Inl ZeroDivisionError"
    by (simp add: output_tokens_moving_average_def py_truediv_def MAX_OUTPUT_MVA_WINDOW_def)
  moreover have "output_tokens_moving_average [] = py_truediv 0 50"
    by (simp add: output_tokens_moving_average_def MAX_OUTPUT_MVA_WINDOW_def)
  moreover have "output_tokens_moving_average [] = Inr 0"
    by (simp add: output_tokens_moving_average_def py_truediv_def MAX_OUTPUT_MVA_WINDOW_def)
  ultimately show ?thesis
    by (simp add: observed_window_last MAX_OUTPUT_MVA_WINDOW_def)
qed

subsection \<open>The retry budget of one attempt\<close>

lemma except_block_requeues:
  assumes "attempts_left request > 0"
  shows "except_block t e request st =
           (Requeued (request\<lparr>result := result request @ [e],
                              attempts_left :=
                                attempts_left request - (if is_read_timeout e then 2 else 1)\<rparr>),
            st\<lparr>num_other_errors := num_other_errors st + 1\<rparr>)"
  using assms by (simp add: except_block_def Let_def)

text \<open>
  Claim C3. An attempt whose \<^verbatim>\<open>try\<close> block raises \<open>e\<close> while \<open>attempts_left\<close> is positive puts
  the request back on the retry queue with \<open>attempts_left\<close> lowered by exactly two when \<open>e\<close>
  is a read timeout (\<^verbatim>\<open>"ReadTimeout" in e.__class__.__name__\<close>) and by exactly one for every
  other exception.
\<close>

theorem timeout_costs_two_attempts:
  assumes "try_block cfg t h request blocked res st = (Inl e, st1, evs)"
    and "attempts_left request > 0"
  shows "\<exists>request' st2 window' evs'.
           handle_response cfg t h request blocked res st window
             = (Requeued request', st2, window', evs')
           \<and> attempts_left request'
               = attempts_left request - (if is_read_timeout e then 2 else 1)"
  using assms by (simp add: handle_response_def except_block_requeues)

theorem timeout_costs_two_attempts_witness:
  "try_block example_config 0 0 example_request None (HttpRaised read_timeout) example_tracker
     = (Inl read_timeout, example_tracker, [])
   \<and> is_read_timeout read_timeout
   \<and> attempts_left example_request = 3
   \<and> (\<exists>request' st2 window' evs'.
         handle_response example_config 0 0 example_request None (HttpRaised read_timeout)
             example_tracker []
           = (Requeued request', st2, window', evs')
         \<and> attempts_left request' = 1)"
proof -
  have h1: "try_block example_config 0 0 example_request None (HttpRaised read_timeout)
              example_tracker = (Inl read_timeout, example_tracker, [])"
    by (simp add: try_block_def call_single_request_def rate_limited_def)
  have h2: "attempts_left example_request > 0"
    by (simp add: example_request_def)
  have h3: "is_read_timeout read_timeout"
    by (simp add: is_read_timeout_def read_timeout_def)
  have h4: "attempts_left example_request = 3"
    by (simp add: example_request_def)
  from timeout_costs_two_attempts [OF h1 h2, of "[]"] h3 h4 h1 show ?thesis
    by simp
qed

subsection \<open>Error counters under a rate-limit error\<close>

text \<open>
  In the current path (\<^verbatim>\<open>call_single_request\<close> followed by the handler of
  \<^verbatim>\<open>handle_single_request_with_retries\<close>) a rate-limit error adds one to
  \<open>num_rate_limit_errors\<close> and leaves the two other error counters as they were.
\<close>

lemma online_rate_limit_net_effect:
  assumes "rate_limited res"
  shows "\<exists>outcome st' window' evs.
           handle_response cfg t h request blocked res st window = (outcome, st', window', evs)
           \<and> num_rate_limit_errors st' = num_rate_limit_errors st + 1
           \<and> num_api_errors st' = num_api_errors st
           \<and> num_other_errors st' = num_other_errors st
           \<and> time_of_last_rate_limit_error st' = t"
  using assms
  by (auto simp: rate_limited_def handle_response_def try_block_def call_single_request_def
        except_block_def Let_def split: http_result.splits response_json.splits)

text \<open>
  Claim C4, on the older path. \<open>process_single_request\<close>, given the body
  \<^verbatim>\<open>{"error": {"message": "Rate limit reached for requests"}}\<close>, adds one to
  \<open>num_rate_limit_errors\<close>, leaves \<open>num_api_errors\<close> as it was, and adds one to
  \<open>num_other_errors\<close> as well: the error is counted in two buckets.
\<close>

theorem legacy_rate_limit_error_counted_twice:
  "num_rate_limit_errors (l_status (process_single_request cfg t request
       (HttpReturned 429 (ErrorBody (Some ''Rate limit reached for requests''))) ls))
     = num_rate_limit_errors (l_status ls) + 1
   \<and> num_api_errors (l_status (process_single_request cfg t request
       (HttpReturned 429 (ErrorBody (Some ''Rate limit reached for requests''))) ls))
     = num_api_errors (l_status ls)
   \<and> num_other_errors (l_status (process_single_request cfg t request
       (HttpReturned 429 (ErrorBody (Some ''Rate limit reached for requests''))) ls))
     = num_other_errors (l_status ls) + 1"
proof -
  have rl: "is_rate_limit_message (Some ''Rate limit reached for requests'')"
    by (simp add: is_rate_limit_message_def lower_def lower_char_def)
  show ?thesis
    by (simp add: process_single_request_def legacy_try_def rl Let_def)
qed

subsection \<open>Evaluating a run\<close>

lemmas exec_defs =
  step_def main_step_def after_file_def acquire_first_def poll_first_def cool_down_first_def
  cool_down_if_rate_limit_error_def launch_first_def new_request_def new_task_def
  token_estimate_of_def retry_loop_def retry_inner_def retry_wait_def launch_retry_def
  poll_retry_def queue_get_def acquire_retry_def wait_ready_def still_pending_def task_done_def
  task_start_def task_exit_def task_response_def task_appended_def set_task_def
  in_progress_add_def emit_def acquire_def release_def handle_response_def try_block_def
  except_block_def call_single_request_def rate_limited_def free_capacity_events_def
  is_rate_limit_message_def lower_def lower_char_def is_read_timeout_def
  add_output_token_moving_window_def deque_append_def MAX_OUTPUT_MVA_WINDOW_def init_def
  validate_existing_response_file_def Let_def

lemmas example_defs =
  example_config_def example_generic_request_def ok_body_def example_response_def
  rate_limit_body_def two_rows_def zero_batch_config_def one_retry_config_def
  no_retry_config_def status_error_def key_error_def

subsection \<open>What each step does to the state\<close>

lemma acquire_release: "acquire x = Some y \<Longrightarrow> release y = x"
  by (auto simp: acquire_def release_def split: option.splits nat.splits)

lemma retry_loop_station:
  "retry_loop cfg s = Some s' \<Longrightarrow> \<exists>pc. s' = s\<lparr>main := pc\<rparr> \<and> retry_station cfg s' pc"
  by (auto simp: retry_loop_def retry_inner_def retry_wait_def retry_station_def split: if_splits)

lemma retry_inner_station:
  "retry_inner cfg s = Some s' \<Longrightarrow>
     \<exists>pc. s' = s\<lparr>main := pc\<rparr> \<and> retry_station cfg s' pc \<and> pc \<noteq> Finished"
  by (auto simp: retry_inner_def retry_wait_def retry_station_def split: if_splits)

lemma launch_first_eq:
  "launch_first cfg request est s =
     s\<lparr>trace := (now s, CreateTask (length (tasks s))) # (now s, ConsumeCapacity est) # trace s,
       tasks := tasks s @ [new_task request est],
       pending_requests := pending_requests s @ [length (tasks s)],
       status_tracker := (status_tracker s)\<lparr>num_tasks_started := num_tasks_started (status_tracker s) + 1\<rparr>,
       main := (if max_batch cfg * 3 \<le> Suc (length (pending_requests s)) then WaitFirstCompleted else ReadLine)\<rparr>"
  by (simp add: launch_first_def emit_def Let_def)

lemma poll_first_cases [consumes 1, case_names sleep cool launch]:
  assumes "poll_first cfg b request est s = s'"
  obtains
    "\<not> b" "s' = s\<lparr>main := PollFirst request est (now s + 0.3)\<rparr>"
  | "b" "now s < time_of_last_rate_limit_error (status_tracker s) + seconds_to_pause_on_rate_limit cfg"
      "s' = s\<lparr>trace := (now s, CoolDownCheck (time_of_last_rate_limit_error (status_tracker s))) # trace s,
              main := CoolDown request est
                (time_of_last_rate_limit_error (status_tracker s) + seconds_to_pause_on_rate_limit cfg)\<rparr>"
  | "b" "time_of_last_rate_limit_error (status_tracker s) + seconds_to_pause_on_rate_limit cfg \<le> now s"
      "s' = launch_first cfg request est
              (s\<lparr>trace := (now s, CoolDownCheck (time_of_last_rate_limit_error (status_tracker s))) # trace s\<rparr>)"
  using assms
  by (auto simp: poll_first_def cool_down_first_def cool_down_if_rate_limit_error_def emit_def Let_def
        split: if_splits)

lemma poll_retry_cases [consumes 1, case_names sleep launch]:
  assumes "poll_retry cfg b request est s = Some s'"
  obtains
    "\<not> b" "s' = s\<lparr>main := PollRetry request est (now s + 0.5)\<rparr>"
  | pc where "b"
      "s' = s\<lparr>trace := (now s, CreateTask (length (tasks s))) # (now s, ConsumeCapacity est) # trace s,
              tasks := tasks s @ [new_task request est],
              pending_retries := pending_retries s @ [length (tasks s)],
              main := pc\<rparr>"
      "pc \<noteq> Finished"
      "retry_station cfg s' pc"
  using assms
  by (auto simp: poll_retry_def launch_retry_def emit_def Let_def retry_station_def
        split: if_splits dest!: retry_inner_station)

lemma main_step_cases [consumes 1, case_names read eof_gather eof_retry skip first_sleep first_cool
    first_launch cooled_launch wait_first gather queue_empty retry_sleep retry_launch wait_retries]:
  assumes "main_step cfg b s = Some s'"
  obtains
    g rest where "main s = ReadLine" "file_lines s = g # rest"
      "s' = s\<lparr>file_lines := rest, main := AcquireFirst g\<rparr>"
  | "main s = ReadLine" "file_lines s = []" "pending_requests s \<noteq> []" "s' = s\<lparr>main := Gather\<rparr>"
  | pc where "main s = ReadLine" "file_lines s = []" "pending_requests s = []"
      "s' = s\<lparr>main := pc\<rparr>" "retry_station cfg s' pc"
  | g where "main s = AcquireFirst g" "acquire (semaphore s) \<noteq> None"
      "original_row_idx g \<in> completed_request_ids s" "s' = s\<lparr>main := ReadLine\<rparr>"
  | request est sem where "first_origin cfg s request est sem" "\<not> b"
      "s' = s\<lparr>semaphore := sem, main := PollFirst request est (now s + 0.3)\<rparr>"
  | request est sem where "first_origin cfg s request est sem" "b"
      "now s < time_of_last_rate_limit_error (status_tracker s) + seconds_to_pause_on_rate_limit cfg"
      "s' = s\<lparr>semaphore := sem,
              trace := (now s, CoolDownCheck (time_of_last_rate_limit_error (status_tracker s))) # trace s,
              main := CoolDown request est
                (time_of_last_rate_limit_error (status_tracker s) + seconds_to_pause_on_rate_limit cfg)\<rparr>"
  | request est sem where "first_origin cfg s request est sem" "b"
      "time_of_last_rate_limit_error (status_tracker s) + seconds_to_pause_on_rate_limit cfg \<le> now s"
      "s' = launch_first cfg request est
              (s\<lparr>semaphore := sem,
                 trace := (now s, CoolDownCheck (time_of_last_rate_limit_error (status_tracker s))) # trace s\<rparr>)"
  | request est wake where "main s = CoolDown request est wake" "wake \<le> now s"
      "s' = launch_first cfg request est s"
  | "main s = WaitFirstCompleted" "list_ex (task_done s) (pending_requests s)"
      "s' = s\<lparr>pending_requests := still_pending s (pending_requests s), main := ReadLine\<rparr>"
  | pc where "main s = Gather" "list_all (task_done s) (pending_requests s)"
      "s' = s\<lparr>main := pc\<rparr>" "retry_station cfg s' pc"
  | sem where "main s = AcquireRetry" "acquire (semaphore s) = Some sem"
      "queue_of_requests_to_retry s = []" "s' = s\<lparr>semaphore := sem, main := QueueGet\<rparr>"
  | request est sem rest where "retry_origin cfg s request est sem rest" "\<not> b"
      "s' = s\<lparr>semaphore := sem, queue_of_requests_to_retry := rest,
              main := PollRetry request est (now s + 0.5)\<rparr>"
  | request est sem rest pc where "retry_origin cfg s request est sem rest" "b"
      "s' = s\<lparr>semaphore := sem, queue_of_requests_to_retry := rest,
              trace := (now s, CreateTask (length (tasks s))) # (now s, ConsumeCapacity est) # trace s,
              tasks := tasks s @ [new_task request est],
              pending_retries := pending_retries s @ [length (tasks s)],
              main := pc\<rparr>"
      "pc \<noteq> Finished"
      "retry_station cfg s' pc"
  | mode deadline pc where "main s = WaitRetries mode deadline"
      "wait_ready mode deadline (pending_retries s) s"
      "s' = s\<lparr>pending_retries := still_pending s (pending_retries s), main := pc\<rparr>"
      "retry_station cfg s' pc"
proof (cases "main s")
  case ReadLine
  then show ?thesis
    using assms that(1,2,3)
    by (auto simp: main_step_def after_file_def split: list.splits if_splits dest!: retry_loop_station)
next
  case (AcquireFirst g)
  show ?thesis
  proof (cases "acquire (semaphore s)")
    case None
    then show ?thesis using assms AcquireFirst by (simp add: main_step_def acquire_first_def)
  next
    case (Some sem)
    show ?thesis
    proof (cases "original_row_idx g \<in> completed_request_ids s")
      case True
      then show ?thesis
        using assms AcquireFirst Some that(4) acquire_release[OF Some]
        by (auto simp: main_step_def acquire_first_def Let_def)
    next
      case False
      define request where "request = new_request cfg s g"
      define est where "est = token_estimate_of cfg s request"
      have origin: "first_origin cfg s request est sem"
        using AcquireFirst Some False by (auto simp: first_origin_def request_def est_def)
      have eq: "poll_first cfg b request est (s\<lparr>semaphore := sem\<rparr>) = s'"
        using assms AcquireFirst Some False
        by (simp add: main_step_def acquire_first_def Let_def request_def est_def new_request_def
              token_estimate_of_def)
      from eq show ?thesis
      proof (cases rule: poll_first_cases)
        case sleep
        then show ?thesis using that(5)[OF origin] by simp
      next
        case cool
        then show ?thesis using that(6)[OF origin] by simp
      next
        case launch
        then show ?thesis using that(7)[OF origin] by simp
      qed
    qed
  qed
next
  case (PollFirst request est wake)
  then have w: "wake \<le> now s" and eq: "poll_first cfg b request est s = s'"
    using assms by (auto simp: main_step_def split: if_splits)
  have origin: "first_origin cfg s request est (semaphore s)"
    using PollFirst w by (auto simp: first_origin_def)
  from eq show ?thesis
  proof (cases rule: poll_first_cases)
    case sleep
    then show ?thesis using that(5)[OF origin] by simp
  next
    case cool
    then show ?thesis using that(6)[OF origin] by simp
  next
    case launch
    then show ?thesis using that(7)[OF origin] by simp
  qed
next
  case (CoolDown request est wake)
  then show ?thesis using assms that(8) by (auto simp: main_step_def split: if_splits)
next
  case WaitFirstCompleted
  then show ?thesis using assms that(9) by (auto simp: main_step_def wait_ready_def split: if_splits)
next
  case Gather
  then show ?thesis
    using assms that(10)
    by (auto simp: main_step_def wait_ready_def split: if_splits dest!: retry_loop_station)
next
  case AcquireRetry
  show ?thesis
  proof (cases "acquire (semaphore s)")
    case None
    then show ?thesis using assms AcquireRetry by (simp add: main_step_def acquire_retry_def)
  next
    case (Some sem)
    show ?thesis
    proof (cases "queue_of_requests_to_retry s")
      case Nil
      then show ?thesis
        using assms AcquireRetry Some that(11)
        by (auto simp: main_step_def acquire_retry_def Let_def)
    next
      case (Cons request rest)
      define est where "est = token_estimate_of cfg s request"
      have origin: "retry_origin cfg s request est sem rest"
        using AcquireRetry Some Cons by (simp add: retry_origin_def est_def)
      have eq: "poll_retry cfg b request est
                  (s\<lparr>semaphore := sem, queue_of_requests_to_retry := rest\<rparr>) = Some s'"
        using assms AcquireRetry Some Cons
        by (simp add: main_step_def acquire_retry_def queue_get_def Let_def est_def
              token_estimate_of_def)
      from eq show ?thesis
      proof (cases rule: poll_retry_cases)
        case sleep
        then show ?thesis using that(12)[OF origin] by simp
      next
        case (launch pc)
        then show ?thesis using that(13)[OF origin] by simp
      qed
    qed
  qed
next
  case QueueGet
  show ?thesis
  proof (cases "queue_of_requests_to_retry s")
    case Nil
    then show ?thesis using assms QueueGet by (simp add: main_step_def queue_get_def)
  next
    case (Cons request rest)
    define est where "est = token_estimate_of cfg s request"
    have origin: "retry_origin cfg s request est (semaphore s) rest"
      using QueueGet Cons by (simp add: retry_origin_def est_def)
    have eq: "poll_retry cfg b request est (s\<lparr>queue_of_requests_to_retry := rest\<rparr>) = Some s'"
      using assms QueueGet Cons
      by (simp add: main_step_def queue_get_def Let_def est_def token_estimate_of_def)
    from eq show ?thesis
    proof (cases rule: poll_retry_cases)
      case sleep
      then show ?thesis using that(12)[OF origin] by simp
    next
      case (launch pc)
      then show ?thesis using that(13)[OF origin] by simp
    qed
  qed
next
  case (PollRetry request est wake)
  then have w: "wake \<le> now s" and eq: "poll_retry cfg b request est s = Some s'"
    using assms by (auto simp: main_step_def split: if_splits)
  have origin: "retry_origin cfg s request est (semaphore s) (queue_of_requests_to_retry s)"
    using PollRetry w by (simp add: retry_origin_def)
  from eq show ?thesis
  proof (cases rule: poll_retry_cases)
    case sleep
    then show ?thesis using that(12)[OF origin] by simp
  next
    case (launch pc)
    then show ?thesis using that(13)[OF origin] by simp
  qed
next
  case (WaitRetries mode deadline)
  then show ?thesis
    using assms that(14)
    by (auto simp: main_step_def split: if_splits dest!: retry_loop_station)
next
  case Finished
  then show ?thesis using assms by (simp add: main_step_def)
qed

lemma call_single_request_counters:
  "call_single_request cfg t request res st = (r, st') \<Longrightarrow> same_task_counters st st'"
  by (auto simp: call_single_request_def same_task_counters_def Let_def
        split: http_result.splits response_json.splits if_splits)

lemma call_single_request_rate_limit:
  "call_single_request cfg t request res st = (r, st') \<Longrightarrow>
     time_of_last_rate_limit_error st'
       = (if rate_limited res then t else time_of_last_rate_limit_error st)
     \<and> (rate_limited res \<longrightarrow> (\<exists>e. r = Inl e))"
  by (auto simp: call_single_request_def rate_limited_def Let_def
        split: http_result.splits response_json.splits if_splits)

lemma call_single_request_response:
  "call_single_request cfg t request res st = (Inr resp, st') \<Longrightarrow>
     st' = st \<and> response_message resp \<noteq> None \<and> response_errors resp = None
     \<and> resp_generic_request resp = generic_request request \<and> token_usage resp \<noteq> None"
  by (auto simp: call_single_request_def Let_def
        split: http_result.splits response_json.splits if_splits)

lemma try_block_cases [consumes 1, case_names raised returned]:
  assumes "try_block cfg t h request blocked res st = (r, st', evs)"
  obtains e where "r = Inl e" "set evs \<subseteq> {RateLimitError h, UpdateStats h}"
      "same_task_counters st st'"
      "time_of_last_rate_limit_error st'
         = (if RateLimitError h \<in> set evs then t else time_of_last_rate_limit_error st)"
  | resp usage where "r = Inr resp" "st' = st" "token_usage resp = Some usage"
      "response_message resp \<noteq> None" "response_errors resp = None"
      "resp_generic_request resp = generic_request request"
      "evs = UpdateStats h # free_capacity_events st h
               \<lparr>tc_input = prompt_tokens usage, tc_output = completion_tokens usage\<rparr> blocked"
proof (cases "call_single_request cfg t request res st")
  case (Pair c st1)
  note cnt = call_single_request_counters[OF Pair]
  note rl = call_single_request_rate_limit[OF Pair]
  show ?thesis
  proof (cases c)
    case (Inl e)
    then show ?thesis using assms Pair cnt rl that(1)
      by (auto simp: try_block_def split: if_splits)
  next
    case (Inr resp)
    note r = call_single_request_response[OF Pair[unfolded Inr]]
    show ?thesis
      using assms Pair Inr r cnt rl that
      by (auto simp: try_block_def split: if_splits option.splits)
  qed
qed

lemma handle_response_cases [consumes 1, case_names succeeded requeued exhausted]:
  assumes "handle_response cfg t h request blocked res st window = (outcome, st', window', evs)"
  obtains resp usage where "outcome = Succeeded resp" "token_usage resp = Some usage"
      "response_message resp \<noteq> None" "response_errors resp = None"
      "resp_generic_request resp = generic_request request"
      "evs = UpdateStats h # free_capacity_events st h
               \<lparr>tc_input = prompt_tokens usage, tc_output = completion_tokens usage\<rparr> blocked"
      "window' = add_output_token_moving_window window (completion_tokens usage)"
      "st' = st"
  | e where
      "outcome = Requeued (request\<lparr>result := result request @ [e],
                   attempts_left := attempts_left request - (if is_read_timeout e then 2 else 1)\<rparr>)"
      "0 < attempts_left request" "failure_events h evs" "window' = window"
      "same_task_counters st st'"
      "time_of_last_rate_limit_error st'
         = (if RateLimitError h \<in> set evs then t else time_of_last_rate_limit_error st)"
  | e resp where "outcome = Exhausted (request\<lparr>result := result request @ [e]\<rparr>) resp"
      "attempts_left request \<le> 0" "response_message resp = None"
      "response_errors resp = Some (map exn_str (result request @ [e]))"
      "resp_generic_request resp = generic_request request"
      "failure_events h evs" "window' = window" "same_task_counters st st'"
      "time_of_last_rate_limit_error st'
         = (if RateLimitError h \<in> set evs then t else time_of_last_rate_limit_error st)"
proof (cases "try_block cfg t h request blocked res st")
  case (fields r st1 evs1)
  from fields show ?thesis
  proof (cases rule: try_block_cases)
    case (raised e)
    have fe: "failure_events h (evs1 @ [AttemptFailed h])"
      using raised(2) by (auto simp: failure_events_def)
    have cnt: "same_task_counters st (st1\<lparr>num_other_errors := num_other_errors st1 + 1\<rparr>)"
      using raised(3) by (simp add: same_task_counters_def)
    have tl: "time_of_last_rate_limit_error (st1\<lparr>num_other_errors := num_other_errors st1 + 1\<rparr>)
                = (if RateLimitError h \<in> set (evs1 @ [AttemptFailed h]) then t
                   else time_of_last_rate_limit_error st)"
      using raised(4) by simp
    show ?thesis
    proof (cases "0 < attempts_left request")
      case True
      have "handle_response cfg t h request blocked res st window =
              (Requeued (request\<lparr>result := result request @ [e],
                   attempts_left := attempts_left request - (if is_read_timeout e then 2 else 1)\<rparr>),
               st1\<lparr>num_other_errors := num_other_errors st1 + 1\<rparr>, window,
               evs1 @ [AttemptFailed h])"
        using fields raised(1) True by (simp add: handle_response_def except_block_requeues)
      with assms have "outcome = Requeued (request\<lparr>result := result request @ [e],
                   attempts_left := attempts_left request - (if is_read_timeout e then 2 else 1)\<rparr>)"
        and "st' = st1\<lparr>num_other_errors := num_other_errors st1 + 1\<rparr>"
        and "window' = window" and "evs = evs1 @ [AttemptFailed h]"
        by simp_all
      then show ?thesis using that(2)[of e] True fe cnt tl by simp
    next
      case False
      define resp where "resp = snd (case fst (except_block t e request st1) of
                                   Exhausted r g \<Rightarrow> (r, g) | _ \<Rightarrow> undefined)"
      have ex: "except_block t e request st1 =
                  (Exhausted (request\<lparr>result := result request @ [e]\<rparr>) resp,
                   st1\<lparr>num_other_errors := num_other_errors st1 + 1\<rparr>)"
        using False by (simp add: except_block_def Let_def resp_def)
      have r1: "response_message resp = None"
        and r2: "response_errors resp = Some (map exn_str (result request @ [e]))"
        and r3: "resp_generic_request resp = generic_request request"
        using False by (simp_all add: except_block_def Let_def resp_def)
      have "handle_response cfg t h request blocked res st window =
              (Exhausted (request\<lparr>result := result request @ [e]\<rparr>) resp,
               st1\<lparr>num_other_errors := num_other_errors st1 + 1\<rparr>, window,
               evs1 @ [AttemptFailed h])"
        using fields raised(1) ex by (simp add: handle_response_def)
      with assms have "outcome = Exhausted (request\<lparr>result := result request @ [e]\<rparr>) resp"
        and "st' = st1\<lparr>num_other_errors := num_other_errors st1 + 1\<rparr>"
        and "window' = window" and "evs = evs1 @ [AttemptFailed h]"
        by simp_all
      then show ?thesis using that(3)[of e resp] False r1 r2 r3 fe cnt tl by simp
    qed
  next
    case (returned resp usage)
    have "handle_response cfg t h request blocked res st window =
            (Succeeded resp, st1,
             add_output_token_moving_window window (completion_tokens usage), evs1)"
      using fields returned(1,3) by (simp add: handle_response_def)
    with assms have o: "outcome = Succeeded resp" and s: "st' = st1"
      and w: "window' = add_output_token_moving_window window (completion_tokens usage)"
      and e: "evs = evs1"
      by simp_all
    show ?thesis
      by (rule that(1)[of resp usage])
        (use o s w e returned in \<open>simp_all\<close>)
  qed
qed


lemma task_start_effect:
  assumes "task_start h s = Some s'"
  shows "h < length (tasks s) \<and> t_pc (tasks s ! h) = AwaitSemaphore \<and> 0 < request_semaphore s
         \<and> s' = s\<lparr>request_semaphore := request_semaphore s - 1,
                   status_tracker := (status_tracker s)
                     \<lparr>num_tasks_in_progress := num_tasks_in_progress (status_tracker s) + 1\<rparr>,
                   tasks := (tasks s)[h := (tasks s ! h)\<lparr>t_pc := AwaitHttp\<rparr>],
                   trace := (now s, HttpCall h) # (now s, InProgressInc h) # trace s\<rparr>"
  using assms
  by (auto simp: task_start_def set_task_def in_progress_add_def emit_def split: if_splits)

lemma task_response_cases [consumes 1, case_names succeeded requeued exhausted]:
  assumes "task_response cfg h res s = Some s'"
  obtains resp usage where "h < length (tasks s)" "t_pc (tasks s ! h) = AwaitHttp"
      "token_usage resp = Some usage" "response_message resp \<noteq> None" "response_errors resp = None"
      "resp_generic_request resp = generic_request (t_request (tasks s ! h))"
      "s' = s\<lparr>output_tokens_window :=
                add_output_token_moving_window (output_tokens_window s) (completion_tokens usage),
              trace := rev (map (Pair (now s))
                (UpdateStats h # free_capacity_events (status_tracker s) h
                   \<lparr>tc_input = prompt_tokens usage, tc_output = completion_tokens usage\<rparr>
                   (t_blocked (tasks s ! h)))) @ trace s,
              semaphore := release (semaphore s),
              tasks := (tasks s)[h := (tasks s ! h)\<lparr>t_pc := AwaitAppendSuccess resp\<rparr>]\<rparr>"
  | e st evs where "h < length (tasks s)" "t_pc (tasks s ! h) = AwaitHttp"
      "0 < attempts_left (t_request (tasks s ! h))" "failure_events h evs"
      "same_task_counters (status_tracker s) st"
      "s' = s\<lparr>status_tracker := st\<lparr>num_tasks_in_progress := num_tasks_in_progress st - 1\<rparr>,
              trace := (now s, InProgressDec h) # (now s, PutRetry h) #
                       rev (map (Pair (now s)) evs) @ trace s,
              queue_of_requests_to_retry := queue_of_requests_to_retry s @
                [(t_request (tasks s ! h))
                   \<lparr>result := result (t_request (tasks s ! h)) @ [e],
                    attempts_left := attempts_left (t_request (tasks s ! h))
                                       - (if is_read_timeout e then 2 else 1)\<rparr>],
              semaphore := release (semaphore s),
              request_semaphore := request_semaphore s + 1,
              tasks := (tasks s)[h := (tasks s ! h)\<lparr>t_pc := TaskDone\<rparr>]\<rparr>"
      "time_of_last_rate_limit_error st
         = (if RateLimitError h \<in> set evs then now s
            else time_of_last_rate_limit_error (status_tracker s))"
  | e resp st evs where "h < length (tasks s)" "t_pc (tasks s ! h) = AwaitHttp"
      "attempts_left (t_request (tasks s ! h)) \<le> 0" "response_message resp = None"
      "response_errors resp = Some (map exn_str (result (t_request (tasks s ! h)) @ [e]))"
      "resp_generic_request resp = generic_request (t_request (tasks s ! h))"
      "failure_events h evs" "same_task_counters (status_tracker s) st"
      "s' = s\<lparr>status_tracker := st,
              trace := rev (map (Pair (now s)) evs) @ trace s,
              tasks := (tasks s)[h := (tasks s ! h)
                \<lparr>t_request := (t_request (tasks s ! h))
                                 \<lparr>result := result (t_request (tasks s ! h)) @ [e]\<rparr>,
                 t_pc := AwaitAppendFailure resp\<rparr>]\<rparr>"
      "time_of_last_rate_limit_error st
         = (if RateLimitError h \<in> set evs then now s
            else time_of_last_rate_limit_error (status_tracker s))"
proof -
  from assms have h: "h < length (tasks s)" and pc: "t_pc (tasks s ! h) = AwaitHttp"
    by (auto simp: task_response_def split: if_splits)
  obtain outcome st window evs where
    hr: "handle_response cfg (now s) h (t_request (tasks s ! h)) (t_blocked (tasks s ! h)) res
           (status_tracker s) (output_tokens_window s) = (outcome, st, window, evs)"
    by (metis prod_cases4)
  from hr show ?thesis
  proof (cases rule: handle_response_cases)
    case (succeeded resp usage)
    have "s' = s\<lparr>output_tokens_window :=
                add_output_token_moving_window (output_tokens_window s) (completion_tokens usage),
              trace := rev (map (Pair (now s))
                (UpdateStats h # free_capacity_events (status_tracker s) h
                   \<lparr>tc_input = prompt_tokens usage, tc_output = completion_tokens usage\<rparr>
                   (t_blocked (tasks s ! h)))) @ trace s,
              semaphore := release (semaphore s),
              tasks := (tasks s)[h := (tasks s ! h)\<lparr>t_pc := AwaitAppendSuccess resp\<rparr>]\<rparr>"
      using assms h pc hr succeeded(1,6,7,8)
      by (simp add: task_response_def Let_def emit_def set_task_def)
    then show ?thesis using that(1)[where resp=resp and usage=usage] h pc succeeded by simp
  next
    case (requeued e)
    have "s' = s\<lparr>status_tracker := st\<lparr>num_tasks_in_progress := num_tasks_in_progress st - 1\<rparr>,
              trace := (now s, InProgressDec h) # (now s, PutRetry h) #
                       rev (map (Pair (now s)) evs) @ trace s,
              queue_of_requests_to_retry := queue_of_requests_to_retry s @
                [(t_request (tasks s ! h))
                   \<lparr>result := result (t_request (tasks s ! h)) @ [e],
                    attempts_left := attempts_left (t_request (tasks s ! h))
                                       - (if is_read_timeout e then 2 else 1)\<rparr>],
              semaphore := release (semaphore s),
              request_semaphore := request_semaphore s + 1,
              tasks := (tasks s)[h := (tasks s ! h)\<lparr>t_pc := TaskDone\<rparr>]\<rparr>"
      using assms h pc hr requeued(1,4)
      by (auto simp add: task_response_def Let_def emit_def set_task_def task_exit_def
            in_progress_add_def)
    then show ?thesis using that(2)[where e=e and st=st and evs=evs] h pc requeued by simp
  next
    case (exhausted e resp)
    have "s' = s\<lparr>status_tracker := st,
              trace := rev (map (Pair (now s)) evs) @ trace s,
              tasks := (tasks s)[h := (tasks s ! h)
                \<lparr>t_request := (t_request (tasks s ! h))
                                 \<lparr>result := result (t_request (tasks s ! h)) @ [e]\<rparr>,
                 t_pc := AwaitAppendFailure resp\<rparr>]\<rparr>"
      using assms h pc hr exhausted(1,7)
      by (simp add: task_response_def Let_def emit_def set_task_def)
    then show ?thesis using that(3)[where e=e and resp=resp and st=st and evs=evs] h pc exhausted by simp
  qed
qed

lemma task_appended_cases [consumes 1, case_names success failure]:
  assumes "task_appended h s = Some s'"
  obtains resp where "h < length (tasks s)" "t_pc (tasks s ! h) = AwaitAppendSuccess resp"
      "s' = s\<lparr>response_file := response_file s @ [resp],
              status_tracker := (status_tracker s)
                \<lparr>num_tasks_in_progress := num_tasks_in_progress (status_tracker s) - 2,
                 num_tasks_succeeded := num_tasks_succeeded (status_tracker s) + 1\<rparr>,
              request_semaphore := request_semaphore s + 1,
              trace := (now s, InProgressDec h) # (now s, SucceededInc h) #
                       (now s, InProgressDec h) # (now s, AppendSuccess h) # trace s,
              tasks := (tasks s)[h := (tasks s ! h)\<lparr>t_pc := TaskDone\<rparr>]\<rparr>"
  | resp where "h < length (tasks s)" "t_pc (tasks s ! h) = AwaitAppendFailure resp"
      "s' = s\<lparr>response_file := response_file s @ [resp],
              status_tracker := (status_tracker s)
                \<lparr>num_tasks_in_progress := num_tasks_in_progress (status_tracker s) - 2,
                 num_tasks_failed := num_tasks_failed (status_tracker s) + 1\<rparr>,
              semaphore := release (semaphore s),
              request_semaphore := request_semaphore s + 1,
              trace := (now s, InProgressDec h) # (now s, FailedInc h) #
                       (now s, InProgressDec h) # (now s, AppendFailure h) # trace s,
              tasks := (tasks s)[h := (tasks s ! h)\<lparr>t_pc := TaskDone\<rparr>]\<rparr>"
  using assms
  by (auto simp: task_appended_def Let_def emit_def set_task_def task_exit_def in_progress_add_def
        split: if_splits task_pc.splits)

subsection \<open>The pending sets and the stations of the main coroutine\<close>

lemma list_ex_filter_less: "list_ex P xs \<Longrightarrow> length (filter (\<lambda>x. \<not> P x) xs) < length xs"
  by (induction xs) (auto simp: less_Suc_eq_le)

lemma first_origin_first_pass: "first_origin cfg s request est sem \<Longrightarrow> first_pass (main s)"
  by (auto simp: first_origin_def)

lemma retry_origin_not_first_pass:
  "retry_origin cfg s request est sem rest \<Longrightarrow> \<not> first_pass (main s) \<and> main s \<noteq> Finished"
  by (auto simp: retry_origin_def)

lemma retry_station_not_first_pass: "retry_station cfg s pc \<Longrightarrow> \<not> first_pass pc"
  by (auto simp: retry_station_def)

lemma well_formed_main_step:
  assumes "well_formed s" and "main_step cfg b s = Some s'"
  shows "well_formed s'"
  using assms(2)
proof (cases rule: main_step_cases)
  case (read g rest)
  then show ?thesis using assms(1) by (auto simp: well_formed_def)
next
  case eof_gather
  then show ?thesis using assms(1) by (auto simp: well_formed_def)
next
  case (eof_retry pc)
  then show ?thesis using assms(1)
    by (auto simp: well_formed_def retry_station_def)
next
  case (skip g)
  then show ?thesis using assms(1) by (auto simp: well_formed_def)
next
  case (first_sleep request est sem)
  then show ?thesis using assms(1) first_origin_first_pass[OF first_sleep(1)]
    by (auto simp: well_formed_def)
next
  case (first_cool request est sem)
  then show ?thesis using assms(1) first_origin_first_pass[OF first_cool(1)]
    by (auto simp: well_formed_def)
next
  case (first_launch request est sem)
  then show ?thesis using assms(1) first_origin_first_pass[OF first_launch(1)]
    by (auto simp: well_formed_def launch_first_eq nth_append less_Suc_eq)
next
  case (cooled_launch request est wake)
  then show ?thesis using assms(1)
    by (auto simp: well_formed_def launch_first_eq nth_append less_Suc_eq)
next
  case wait_first
  then show ?thesis using assms(1)
    by (auto simp: well_formed_def still_pending_def task_done_def)
next
  case (gather pc)
  then show ?thesis using assms(1)
    by (auto simp: well_formed_def retry_station_def list_all_iff task_done_def)
next
  case (queue_empty sem)
  then show ?thesis using assms(1) by (auto simp: well_formed_def)
next
  case (retry_sleep request est sem rest)
  then show ?thesis using assms(1) retry_origin_not_first_pass[OF retry_sleep(1)]
    by (auto simp: well_formed_def)
next
  case (retry_launch request est sem rest pc)
  then show ?thesis using assms(1) retry_origin_not_first_pass[OF retry_launch(1)]
      retry_station_not_first_pass[OF retry_launch(5)]
    by (auto simp: well_formed_def nth_append less_Suc_eq)
next
  case (wait_retries mode deadline pc)
  then show ?thesis using assms(1) retry_station_not_first_pass[OF wait_retries(4)]
    by (auto simp: well_formed_def still_pending_def task_done_def retry_station_def)
qed


lemma well_formed_task_start:
  assumes "well_formed s" and "task_start h s = Some s'"
  shows "well_formed s'"
  using assms(1) task_start_effect[OF assms(2)]
  by (auto simp: well_formed_def nth_list_update)

lemma well_formed_task_response:
  assumes "well_formed s" and "task_response cfg h res s = Some s'"
  shows "well_formed s'"
  using assms(2)
proof (cases rule: task_response_cases)
  case (succeeded resp usage)
  then show ?thesis using assms(1) by (auto simp: well_formed_def nth_list_update)
next
  case (requeued e st evs)
  then show ?thesis using assms(1) by (auto simp: well_formed_def nth_list_update)
next
  case (exhausted e resp st evs)
  then show ?thesis using assms(1) by (auto simp: well_formed_def nth_list_update)
qed

lemma well_formed_task_appended:
  assumes "well_formed s" and "task_appended h s = Some s'"
  shows "well_formed s'"
  using assms(2)
proof (cases rule: task_appended_cases)
  case (success resp)
  then show ?thesis using assms(1) by (auto simp: well_formed_def nth_list_update)
next
  case (failure resp)
  then show ?thesis using assms(1) by (auto simp: well_formed_def nth_list_update)
qed

lemma step_cases [consumes 1, case_names tick main start response appended]:
  assumes "step cfg a s = Some s'"
  obtains d where "a = Tick d" "0 \<le> d" "s' = s\<lparr>now := now s + d\<rparr>"
  | b where "a = MainStep b" "main_step cfg b s = Some s'"
  | h where "a = TaskStart h" "task_start h s = Some s'"
  | h res where "a = TaskResponse h res" "task_response cfg h res s = Some s'"
  | h where "a = TaskAppended h" "task_appended h s = Some s'"
  using assms by (cases a) (auto simp: step_def split: if_splits)

lemma run_invariant:
  assumes "\<And>a s s'. P s \<Longrightarrow> step cfg a s = Some s' \<Longrightarrow> P s'"
  shows "P s0 \<Longrightarrow> run cfg acts s0 = Some s \<Longrightarrow> P s"
proof (induction acts arbitrary: s0)
  case Nil
  then show ?case by simp
next
  case (Cons a acts)
  then show ?case using assms by (auto split: option.splits)
qed

lemma well_formed_step:
  assumes "well_formed s" and "step cfg a s = Some s'"
  shows "well_formed s'"
  using assms(2)
proof (cases rule: step_cases)
  case (tick d)
  then show ?thesis using assms(1) by (simp add: well_formed_def)
next
  case (main b)
  then show ?thesis using assms(1) well_formed_main_step by blast
next
  case (start h)
  then show ?thesis using assms(1) well_formed_task_start by blast
next
  case (response h res)
  then show ?thesis using assms(1) well_formed_task_response by blast
next
  case (appended h)
  then show ?thesis using assms(1) well_formed_task_appended by blast
qed

lemma well_formed_init: "well_formed (init cfg t0 tl0 tpm requests existing)"
  by (simp add: well_formed_def init_def)

lemma well_formed_run:
  assumes "run cfg acts (init cfg t0 tl0 tpm requests existing) = Some s"
  shows "well_formed s"
proof (rule run_invariant[where P = well_formed and cfg = cfg])
  show "\<And>a s s'. well_formed s \<Longrightarrow> step cfg a s = Some s' \<Longrightarrow> well_formed s'"
    by (rule well_formed_step)
  show "well_formed (init cfg t0 tl0 tpm requests existing)"
    by (rule well_formed_init)
  show "run cfg acts (init cfg t0 tl0 tpm requests existing) = Some s"
    by fact
qed

subsection \<open>Accounting of started requests\<close>

lemma filter_update_count:
  "h < length ts \<Longrightarrow>
     length (filter P (ts[h := x])) + (if P (ts ! h) then 1 else 0)
       = length (filter P ts) + (if P x then 1 else 0)"
proof (induction ts arbitrary: h)
  case Nil
  then show ?case by simp
next
  case (Cons a ts)
  then show ?case by (cases h) auto
qed

lemma live_tasks_update:
  assumes "h < length (tasks s)"
  shows "int (length (filter (\<lambda>t. t_pc t \<noteq> TaskDone) ((tasks s)[h := x])))
           = int (live_tasks s) - (if t_pc (tasks s ! h) \<noteq> TaskDone then 1 else 0)
               + (if t_pc x \<noteq> TaskDone then 1 else 0)"
  using filter_update_count[OF assms, of "\<lambda>t. t_pc t \<noteq> TaskDone" x]
  by (auto simp: live_tasks_def)

lemma first_pass_held: "first_pass pc \<Longrightarrow> held_retry pc = []"
  by (cases pc) auto

lemma retry_station_held: "retry_station cfg s pc \<Longrightarrow> held_retry pc = []"
  by (auto simp: retry_station_def)

lemma retry_origin_carried:
  "retry_origin cfg s request est sem rest \<Longrightarrow>
     length (queue_of_requests_to_retry s) + length (held_retry (main s)) = Suc (length rest)"
  by (auto simp: retry_origin_def)

lemma accounted_main_step:
  assumes "accounted s" and "main_step cfg b s = Some s'"
  shows "accounted s'"
  using assms(2)
proof (cases rule: main_step_cases)
  case (read g rest)
  then show ?thesis using assms(1) by (simp add: accounted_def live_tasks_def)
next
  case eof_gather
  then show ?thesis using assms(1) by (simp add: accounted_def live_tasks_def)
next
  case (eof_retry pc)
  then show ?thesis using assms(1) retry_station_held[OF eof_retry(5)]
    by (simp add: accounted_def live_tasks_def)
next
  case (skip g)
  then show ?thesis using assms(1) by (simp add: accounted_def live_tasks_def)
next
  case (first_sleep request est sem)
  then show ?thesis using assms(1) first_pass_held[OF first_origin_first_pass[OF first_sleep(1)]]
    by (simp add: accounted_def live_tasks_def)
next
  case (first_cool request est sem)
  then show ?thesis using assms(1) first_pass_held[OF first_origin_first_pass[OF first_cool(1)]]
    by (simp add: accounted_def live_tasks_def)
next
  case (first_launch request est sem)
  then show ?thesis using assms(1) first_pass_held[OF first_origin_first_pass[OF first_launch(1)]]
    by (simp add: accounted_def live_tasks_def launch_first_eq new_task_def)
next
  case (cooled_launch request est wake)
  then show ?thesis using assms(1)
    by (simp add: accounted_def live_tasks_def launch_first_eq new_task_def)
next
  case wait_first
  then show ?thesis using assms(1) by (simp add: accounted_def live_tasks_def)
next
  case (gather pc)
  then show ?thesis using assms(1) retry_station_held[OF gather(4)]
    by (simp add: accounted_def live_tasks_def)
next
  case (queue_empty sem)
  then show ?thesis using assms(1) by (simp add: accounted_def live_tasks_def)
next
  case (retry_sleep request est sem rest)
  then show ?thesis using assms(1) retry_origin_carried[OF retry_sleep(1)]
    by (simp add: accounted_def live_tasks_def)
next
  case (retry_launch request est sem rest pc)
  then show ?thesis using assms(1) retry_origin_carried[OF retry_launch(1)]
      retry_station_held[OF retry_launch(5)]
    by (simp add: accounted_def live_tasks_def new_task_def)
next
  case (wait_retries mode deadline pc)
  then show ?thesis using assms(1) retry_station_held[OF wait_retries(4)]
    by (simp add: accounted_def live_tasks_def)
qed

lemma accounted_task_start:
  assumes "accounted s" and "task_start h s = Some s'"
  shows "accounted s'"
  using assms(1) task_start_effect[OF assms(2)] live_tasks_update[of h s "(tasks s ! h)\<lparr>t_pc := AwaitHttp\<rparr>"]
  by (auto simp: accounted_def live_tasks_def)

lemma accounted_task_response:
  assumes "accounted s" and "task_response cfg h res s = Some s'"
  shows "accounted s'"
  using assms(2)
proof (cases rule: task_response_cases)
  case (succeeded resp usage)
  then show ?thesis
    using assms(1) live_tasks_update[of h s "(tasks s ! h)\<lparr>t_pc := AwaitAppendSuccess resp\<rparr>"]
    by (auto simp: accounted_def live_tasks_def)
next
  case (requeued e st evs)
  then show ?thesis
    using assms(1) live_tasks_update[of h s "(tasks s ! h)\<lparr>t_pc := TaskDone\<rparr>"]
    by (auto simp: accounted_def live_tasks_def same_task_counters_def)
next
  case (exhausted e resp st evs)
  then show ?thesis
    using assms(1) live_tasks_update[of h s "(tasks s ! h)
                \<lparr>t_request := (t_request (tasks s ! h))
                                 \<lparr>result := result (t_request (tasks s ! h)) @ [e]\<rparr>,
                 t_pc := AwaitAppendFailure resp\<rparr>"]
    by (auto simp: accounted_def live_tasks_def same_task_counters_def)
qed

lemma accounted_task_appended:
  assumes "accounted s" and "task_appended h s = Some s'"
  shows "accounted s'"
  using assms(2)
proof (cases rule: task_appended_cases)
  case (success resp)
  then show ?thesis
    using assms(1) live_tasks_update[of h s "(tasks s ! h)\<lparr>t_pc := TaskDone\<rparr>"]
    by (auto simp: accounted_def live_tasks_def)
next
  case (failure resp)
  then show ?thesis
    using assms(1) live_tasks_update[of h s "(tasks s ! h)\<lparr>t_pc := TaskDone\<rparr>"]
    by (auto simp: accounted_def live_tasks_def)
qed

lemma accounted_step:
  assumes "accounted s" and "step cfg a s = Some s'"
  shows "accounted s'"
  using assms(2)
proof (cases rule: step_cases)
  case (tick d)
  then show ?thesis using assms(1) by (simp add: accounted_def live_tasks_def)
next
  case (main b)
  then show ?thesis using assms(1) accounted_main_step by blast
next
  case (start h)
  then show ?thesis using assms(1) accounted_task_start by blast
next
  case (response h res)
  then show ?thesis using assms(1) accounted_task_response by blast
next
  case (appended h)
  then show ?thesis using assms(1) accounted_task_appended by blast
qed

lemma accounted_run:
  assumes "run cfg acts (init cfg t0 tl0 tpm requests existing) = Some s"
  shows "accounted s"
proof (rule run_invariant[where P = accounted and cfg = cfg])
  show "\<And>a s s'. accounted s \<Longrightarrow> step cfg a s = Some s' \<Longrightarrow> accounted s'"
    by (rule accounted_step)
  show "accounted (init cfg t0 tl0 tpm requests existing)"
    by (simp add: accounted_def init_def live_tasks_def)
  show "run cfg acts (init cfg t0 tl0 tpm requests existing) = Some s"
    by fact
qed

lemma finished_no_live_tasks:
  assumes "well_formed s" and "main s = Finished"
  shows "live_tasks s = 0"
proof -
  have "\<forall>h < length (tasks s). t_pc (tasks s ! h) = TaskDone"
    using assms by (auto simp: well_formed_def)
  then have "\<forall>t \<in> set (tasks s). t_pc t = TaskDone"
    by (metis in_set_conv_nth)
  then show ?thesis by (simp add: live_tasks_def)
qed

subsection \<open>The bound on the pending tasks is kept\<close>


lemma first_origin_not_wait: "first_origin cfg s request est sem \<Longrightarrow> main s \<noteq> WaitFirstCompleted"
  by (auto simp: first_origin_def)

lemma retry_origin_not_wait:
  "retry_origin cfg s request est sem rest \<Longrightarrow> main s \<noteq> WaitFirstCompleted"
  by (auto simp: retry_origin_def)

lemma backpressure_main_step:
  assumes "backpressure cfg s" and "main_step cfg b s = Some s'"
  shows "backpressure cfg s'"
  using assms(2)
proof (cases rule: main_step_cases)
  case (read g rest)
  then show ?thesis using assms(1) by (auto simp: backpressure_def)
next
  case eof_gather
  then show ?thesis using assms(1) by (auto simp: backpressure_def)
next
  case (eof_retry pc)
  then show ?thesis using assms(1) by (auto simp: backpressure_def)
next
  case (skip g)
  then show ?thesis using assms(1) by (auto simp: backpressure_def)
next
  case (first_sleep request est sem)
  then show ?thesis using assms(1) first_origin_not_wait[OF first_sleep(1)]
    by (auto simp: backpressure_def)
next
  case (first_cool request est sem)
  then show ?thesis using assms(1) first_origin_not_wait[OF first_cool(1)]
    by (auto simp: backpressure_def)
next
  case (first_launch request est sem)
  then show ?thesis using assms(1) first_origin_not_wait[OF first_launch(1)]
    by (auto simp: backpressure_def launch_first_eq)
next
  case (cooled_launch request est wake)
  then show ?thesis using assms(1)
    by (auto simp: backpressure_def launch_first_eq)
next
  case wait_first
  then show ?thesis using assms(1) list_ex_filter_less[OF wait_first(2)]
    by (auto simp: backpressure_def still_pending_def)
next
  case (gather pc)
  then show ?thesis using assms(1) by (auto simp: backpressure_def)
next
  case (queue_empty sem)
  then show ?thesis using assms(1) by (auto simp: backpressure_def)
next
  case (retry_sleep request est sem rest)
  then show ?thesis using assms(1) retry_origin_not_wait[OF retry_sleep(1)]
    by (auto simp: backpressure_def)
next
  case (retry_launch request est sem rest pc)
  then show ?thesis using assms(1) retry_origin_not_wait[OF retry_launch(1)]
    by (auto simp: backpressure_def)
next
  case (wait_retries mode deadline pc)
  then show ?thesis using assms(1) by (auto simp: backpressure_def)
qed

lemma backpressure_step:
  assumes "backpressure cfg s" and "step cfg a s = Some s'"
  shows "backpressure cfg s'"
  using assms(2)
proof (cases rule: step_cases)
  case (tick d)
  then show ?thesis using assms(1) by (simp add: backpressure_def)
next
  case (main b)
  then show ?thesis using assms(1) backpressure_main_step by blast
next
  case (start h)
  then show ?thesis using assms(1) task_start_effect[OF start(2)]
    by (auto simp: backpressure_def)
next
  case (response h res)
  from response(2) show ?thesis
    by (cases rule: task_response_cases) (use assms(1) in \<open>auto simp: backpressure_def\<close>)
next
  case (appended h)
  from appended(2) show ?thesis
    by (cases rule: task_appended_cases) (use assms(1) in \<open>auto simp: backpressure_def\<close>)
qed

lemma backpressure_run:
  assumes "0 < max_batch cfg"
    and "run cfg acts (init cfg t0 tl0 tpm requests existing) = Some s"
  shows "backpressure cfg s"
proof (rule run_invariant[where P = "backpressure cfg" and cfg = cfg])
  show "\<And>a s s'. backpressure cfg s \<Longrightarrow> step cfg a s = Some s' \<Longrightarrow> backpressure cfg s'"
    by (rule backpressure_step)
  show "backpressure cfg (init cfg t0 tl0 tpm requests existing)"
    using assms(1) by (simp add: backpressure_def init_def)
  show "run cfg acts (init cfg t0 tl0 tpm requests existing) = Some s"
    by fact
qed

lemma live_tasks_le_pending:
  assumes "well_formed s" and "first_pass (main s)"
  shows "live_tasks s \<le> length (pending_requests s)"
proof -
  have sub: "{i. i < length (tasks s) \<and> t_pc (tasks s ! i) \<noteq> TaskDone} \<subseteq> set (pending_requests s)"
    using assms by (auto simp: well_formed_def)
  have "live_tasks s = card {i. i < length (tasks s) \<and> t_pc (tasks s ! i) \<noteq> TaskDone}"
    by (simp add: live_tasks_def length_filter_conv_card)
  also have "\<dots> \<le> card (set (pending_requests s))"
    using sub by (simp add: card_mono)
  also have "\<dots> \<le> length (pending_requests s)"
    by (rule card_length)
  finally show ?thesis .
qed

subsection \<open>The record that a task is about to append\<close>

lemma tasks_ok_main_step:
  assumes inv: "tasks_ok s"
    and st: "main_step cfg b s = Some s'"
  shows "tasks_ok s'"
  using st
proof (cases rule: main_step_cases)
  case (read g rest)
  then show ?thesis using inv 
    by (auto simp: tasks_ok_def append_pending_def list_all_iff launch_first_eq new_task_def)
next
  case eof_gather
  then show ?thesis using inv 
    by (auto simp: tasks_ok_def append_pending_def list_all_iff launch_first_eq new_task_def)
next
  case (eof_retry pc)
  then show ?thesis using inv 
    by (auto simp: tasks_ok_def append_pending_def list_all_iff launch_first_eq new_task_def)
next
  case (skip g)
  then show ?thesis using inv 
    by (auto simp: tasks_ok_def append_pending_def list_all_iff launch_first_eq new_task_def)
next
  case (first_sleep request est sem)
  then show ?thesis using inv 
    by (auto simp: tasks_ok_def append_pending_def list_all_iff launch_first_eq new_task_def)
next
  case (first_cool request est sem)
  then show ?thesis using inv 
    by (auto simp: tasks_ok_def append_pending_def list_all_iff launch_first_eq new_task_def)
next
  case (first_launch request est sem)
  then show ?thesis using inv 
    by (auto simp: tasks_ok_def append_pending_def list_all_iff launch_first_eq new_task_def)
next
  case (cooled_launch request est wake)
  then show ?thesis using inv 
    by (auto simp: tasks_ok_def append_pending_def list_all_iff launch_first_eq new_task_def)
next
  case wait_first
  then show ?thesis using inv 
    by (auto simp: tasks_ok_def append_pending_def list_all_iff launch_first_eq new_task_def)
next
  case (gather pc)
  then show ?thesis using inv 
    by (auto simp: tasks_ok_def append_pending_def list_all_iff launch_first_eq new_task_def)
next
  case (queue_empty sem)
  then show ?thesis using inv 
    by (auto simp: tasks_ok_def append_pending_def list_all_iff launch_first_eq new_task_def)
next
  case (retry_sleep request est sem rest)
  then show ?thesis using inv 
    by (auto simp: tasks_ok_def append_pending_def list_all_iff launch_first_eq new_task_def)
next
  case (retry_launch request est sem rest pc)
  then show ?thesis using inv 
    by (auto simp: tasks_ok_def append_pending_def list_all_iff launch_first_eq new_task_def)
next
  case (wait_retries mode deadline pc)
  then show ?thesis using inv 
    by (auto simp: tasks_ok_def append_pending_def list_all_iff launch_first_eq new_task_def)
qed

lemma tasks_ok_task_start:
  assumes inv: "tasks_ok s"
    and st: "task_start h s = Some s'"
  shows "tasks_ok s'"
  using inv task_start_effect[OF st] set_update_subset_insert[of "tasks s" h]
  by (auto simp: tasks_ok_def append_pending_def list_all_iff dest!: set_update_subset_insert[THEN subsetD])

lemma tasks_ok_task_response:
  assumes inv: "tasks_ok s"
    and st: "task_response cfg h res s = Some s'"
  shows "tasks_ok s'"
  using st
proof (cases rule: task_response_cases)
  case (succeeded resp usage)
  then show ?thesis using inv set_update_subset_insert[of "tasks s" h]
    by (auto simp: tasks_ok_def append_pending_def list_all_iff dest!: set_update_subset_insert[THEN subsetD])
next
  case (requeued e st evs)
  then show ?thesis using inv set_update_subset_insert[of "tasks s" h]
    by (auto simp: tasks_ok_def append_pending_def list_all_iff dest!: set_update_subset_insert[THEN subsetD])
next
  case (exhausted e resp st evs)
  then show ?thesis using inv set_update_subset_insert[of "tasks s" h]
    by (auto simp: tasks_ok_def append_pending_def list_all_iff dest!: set_update_subset_insert[THEN subsetD])
qed

lemma tasks_ok_task_appended:
  assumes inv: "tasks_ok s"
    and st: "task_appended h s = Some s'"
  shows "tasks_ok s'"
  using st
proof (cases rule: task_appended_cases)
  case (success resp)
  then show ?thesis using inv set_update_subset_insert[of "tasks s" h]
    by (auto simp: tasks_ok_def append_pending_def list_all_iff dest!: set_update_subset_insert[THEN subsetD])
next
  case (failure resp)
  then show ?thesis using inv set_update_subset_insert[of "tasks s" h]
    by (auto simp: tasks_ok_def append_pending_def list_all_iff dest!: set_update_subset_insert[THEN subsetD])
qed

lemma tasks_ok_step:
  assumes inv: "tasks_ok s"
    and st: "step cfg a s = Some s'"
  shows "tasks_ok s'"
  using st
proof (cases rule: step_cases)
  case (tick d)
  then show ?thesis using inv  by (simp add: tasks_ok_def append_pending_def list_all_iff launch_first_eq new_task_def)
next
  case (main b)
  then show ?thesis using inv   tasks_ok_main_step by blast
next
  case (start h)
  then show ?thesis using inv   tasks_ok_task_start by blast
next
  case (response h res)
  then show ?thesis using inv   tasks_ok_task_response by blast
next
  case (appended h)
  then show ?thesis using inv   tasks_ok_task_appended by blast
qed

lemma tasks_ok_init:
  shows "tasks_ok (init cfg t0 tl0 tpm requests existing)"
  by (simp add: tasks_ok_def init_def)

lemma tasks_ok_run:
  assumes r: "run cfg acts (init cfg t0 tl0 tpm requests existing) = Some s"
  shows "tasks_ok s"
proof -
  have "(\<lambda>s. tasks_ok s) s"
  proof (rule run_invariant[where P = "\<lambda>s. tasks_ok s" and cfg = cfg])
    show "\<And>a s s'. (\<lambda>s. tasks_ok s) s \<Longrightarrow> step cfg a s = Some s' \<Longrightarrow> (\<lambda>s. tasks_ok s) s'"
      using  tasks_ok_step  by blast
    show "(\<lambda>s. tasks_ok s) (init cfg t0 tl0 tpm requests existing)"
      using  tasks_ok_init  by blast
    show "run cfg acts (init cfg t0 tl0 tpm requests existing) = Some s"
      by fact
  qed
  then show ?thesis by simp
qed


lemma tasks_ok_nth: "tasks_ok s \<Longrightarrow> h < length (tasks s) \<Longrightarrow> append_pending (tasks s ! h)"
  by (simp add: tasks_ok_def list_all_length)

lemma tasks_ok_success:
  assumes "tasks_ok s" and "h < length (tasks s)" and "t_pc (tasks s ! h) = AwaitAppendSuccess resp"
  shows "resp_generic_request resp = generic_request (t_request (tasks s ! h))
         \<and> response_message resp \<noteq> None \<and> response_errors resp = None
         \<and> token_usage resp \<noteq> None"
  using tasks_ok_nth[OF assms(1,2)] assms(3) by (simp add: append_pending_def)

lemma tasks_ok_failure:
  assumes "tasks_ok s" and "h < length (tasks s)" and "t_pc (tasks s ! h) = AwaitAppendFailure resp"
  shows "resp_generic_request resp = generic_request (t_request (tasks s ! h))
         \<and> response_message resp = None
         \<and> response_errors resp = Some (map exn_str (result (t_request (tasks s ! h))))
         \<and> attempts_left (t_request (tasks s ! h)) \<le> 0"
  using tasks_ok_nth[OF assms(1,2)] assms(3) by (simp add: append_pending_def)

subsection \<open>Resuming from an existing response file\<close>

lemma first_origin_hand:
  "first_origin cfg s request est sem \<Longrightarrow>
     set (map original_row_idx (line_in_hand (main s))) \<union> set (map row_of_request (held_first (main s)))
       = {row_of_request request}
     \<and> held_retry (main s) = []"
  by (auto simp: first_origin_def new_request_def row_of_request_def)

lemma first_origin_row:
  "first_origin cfg s request est sem \<Longrightarrow> resuming existing s \<Longrightarrow>
     row_of_request request \<notin> validate_existing_response_file existing"
  by (auto simp: first_origin_def new_request_def row_of_request_def resuming_def
        held_requests_def)

lemma retry_station_holds:
  "retry_station cfg s pc \<Longrightarrow> held_retry pc = [] \<and> held_first pc = [] \<and> line_in_hand pc = []"
  by (auto simp: retry_station_def)

lemma retry_origin_flight:
  "retry_origin cfg s request est sem rest \<Longrightarrow>
     set (queue_of_requests_to_retry s) \<union> set (held_retry (main s)) = insert request (set rest)
     \<and> held_first (main s) = [] \<and> line_in_hand (main s) = []"
  by (auto simp: retry_origin_def)

lemma completed_rows_logged:
  "resuming existing s \<Longrightarrow> completed_request_ids s \<subseteq> logged_rows s"
  by (auto simp: resuming_def logged_rows_def validate_existing_response_file_def
        row_of_response_def)

lemma rows_of_tasks_append:
  "rows_of_tasks (ts @ [new_task request est]) = insert (row_of_request request) (rows_of_tasks ts)"
  by (auto simp: rows_of_tasks_def new_task_def)

lemma set_filter_update:
  assumes "h < length ts"
  shows "set (filter P (ts[h := y])) \<subseteq> (if P y then {y} else {}) \<union> set (filter P ts)"
    and "set (filter P ts) \<subseteq> (if P (ts ! h) then {ts ! h} else {}) \<union> set (filter P (ts[h := y]))"
    and "P y \<Longrightarrow> y \<in> set (filter P (ts[h := y]))"
proof -
  show "set (filter P (ts[h := y])) \<subseteq> (if P y then {y} else {}) \<union> set (filter P ts)"
    using set_update_subset_insert[of ts h y] by auto
  show "set (filter P ts) \<subseteq> (if P (ts ! h) then {ts ! h} else {}) \<union> set (filter P (ts[h := y]))"
  proof
    fix x assume "x \<in> set (filter P ts)"
    then obtain i where i: "i < length ts" "ts ! i = x" "P x"
      by (auto simp: in_set_conv_nth)
    show "x \<in> (if P (ts ! h) then {ts ! h} else {}) \<union> set (filter P (ts[h := y]))"
    proof (cases "i = h")
      case True
      then show ?thesis using i by auto
    next
      case False
      then have "(ts[h := y]) ! i = x" using i by simp
      then have "x \<in> set (ts[h := y])" using i(1) by (metis length_list_update nth_mem)
      then show ?thesis using i(3) by simp
    qed
  qed
  show "P y \<Longrightarrow> y \<in> set (filter P (ts[h := y]))"
    using assms by (simp add: set_update_memI)
qed

lemma rows_of_tasks_keep:
  assumes "h < length ts" and "t_pc (ts ! h) \<noteq> TaskDone" and "t_pc y \<noteq> TaskDone"
    and "row_of_request (t_request y) = row_of_request (t_request (ts ! h))"
  shows "rows_of_tasks (ts[h := y]) = rows_of_tasks ts"
proof -
  have m: "ts ! h \<in> set (filter (\<lambda>t. t_pc t \<noteq> TaskDone) ts)"
    using assms(1,2) by simp
  show ?thesis
    using set_filter_update[OF assms(1), of "\<lambda>t. t_pc t \<noteq> TaskDone" y] assms(2,3,4) m
    unfolding rows_of_tasks_def set_map
    by (auto simp: image_iff subset_iff) (metis+)
qed

lemma rows_of_tasks_drop:
  assumes "h < length ts" and "t_pc (ts ! h) \<noteq> TaskDone" and "t_pc y = TaskDone"
  shows "rows_of_tasks ts = insert (row_of_request (t_request (ts ! h))) (rows_of_tasks (ts[h := y]))"
proof -
  have m: "ts ! h \<in> set (filter (\<lambda>t. t_pc t \<noteq> TaskDone) ts)"
    using assms(1,2) by simp
  show ?thesis
    using set_filter_update(1,2)[OF assms(1), of "\<lambda>t. t_pc t \<noteq> TaskDone" y] assms(2,3) m
    unfolding rows_of_tasks_def set_map
    by (auto simp: image_iff subset_iff)
qed

lemma resuming_main_step:
  assumes inv: "resuming existing s"
    and x1: "tasks_ok s"
    and st: "main_step cfg b s = Some s'"
  shows "resuming existing s'"
  using st
proof (cases rule: main_step_cases)
  case (read g rest)
  then show ?thesis using inv 
    by (auto simp: resuming_def held_requests_def)
next
  case eof_gather
  then show ?thesis using inv 
    by (auto simp: resuming_def held_requests_def)
next
  case (eof_retry pc)
  then show ?thesis using inv retry_station_holds[OF eof_retry(5)]
    by (auto simp: resuming_def held_requests_def launch_first_eq new_task_def)
next
  case (skip g)
  then show ?thesis using inv 
    by (auto simp: resuming_def held_requests_def)
next
  case (first_sleep request est sem)
  then show ?thesis using inv first_origin_row[OF first_sleep(1)] first_origin_hand[OF first_sleep(1)]
    by (auto simp: resuming_def held_requests_def launch_first_eq new_task_def)
next
  case (first_cool request est sem)
  then show ?thesis using inv first_origin_row[OF first_cool(1)] first_origin_hand[OF first_cool(1)]
    by (auto simp: resuming_def held_requests_def launch_first_eq new_task_def)
next
  case (first_launch request est sem)
  then show ?thesis using inv first_origin_row[OF first_launch(1)] first_origin_hand[OF first_launch(1)]
    by (auto simp: resuming_def held_requests_def launch_first_eq new_task_def)
next
  case (cooled_launch request est wake)
  then show ?thesis using inv 
    by (auto simp: resuming_def held_requests_def launch_first_eq new_task_def)
next
  case wait_first
  then show ?thesis using inv 
    by (auto simp: resuming_def held_requests_def)
next
  case (gather pc)
  then show ?thesis using inv retry_station_holds[OF gather(4)]
    by (auto simp: resuming_def held_requests_def launch_first_eq new_task_def)
next
  case (queue_empty sem)
  then show ?thesis using inv 
    by (auto simp: resuming_def held_requests_def)
next
  case (retry_sleep request est sem rest)
  then show ?thesis using inv retry_origin_flight[OF retry_sleep(1)]
    by (auto simp: resuming_def held_requests_def launch_first_eq new_task_def)
next
  case (retry_launch request est sem rest pc)
  then show ?thesis using inv retry_origin_flight[OF retry_launch(1)] retry_station_holds[OF retry_launch(5)]
    by (auto simp: resuming_def held_requests_def launch_first_eq new_task_def)
next
  case (wait_retries mode deadline pc)
  then show ?thesis using inv retry_station_holds[OF wait_retries(4)]
    by (auto simp: resuming_def held_requests_def launch_first_eq new_task_def)
qed

lemma resuming_task_start:
  assumes inv: "resuming existing s"
    and x1: "tasks_ok s"
    and st: "task_start h s = Some s'"
  shows "resuming existing s'"
  using inv task_start_effect[OF st] 
  by (auto simp: resuming_def held_requests_def row_of_request_def row_of_response_def dest!: set_update_subset_insert[THEN subsetD])

lemma resuming_task_response:
  assumes inv: "resuming existing s"
    and x1: "tasks_ok s"
    and st: "task_response cfg h res s = Some s'"
  shows "resuming existing s'"
  using st
proof (cases rule: task_response_cases)
  case (succeeded resp usage)
  then show ?thesis using inv 
    by (auto simp: resuming_def held_requests_def row_of_request_def row_of_response_def dest!: set_update_subset_insert[THEN subsetD])
next
  case (requeued e st evs)
  then show ?thesis using inv nth_mem[of h "tasks s"]
    by (auto simp: resuming_def held_requests_def row_of_request_def row_of_response_def dest!: set_update_subset_insert[THEN subsetD])
next
  case (exhausted e resp st evs)
  then show ?thesis using inv 
    by (auto simp: resuming_def held_requests_def row_of_request_def row_of_response_def dest!: set_update_subset_insert[THEN subsetD])
qed

lemma resuming_task_appended:
  assumes inv: "resuming existing s"
    and x1: "tasks_ok s"
    and st: "task_appended h s = Some s'"
  shows "resuming existing s'"
  using st
proof (cases rule: task_appended_cases)
  case (success resp)
  then show ?thesis using inv tasks_ok_success[OF x1 success(1,2)] nth_mem[of h "tasks s"]
    by (auto simp: resuming_def held_requests_def row_of_request_def row_of_response_def dest!: set_update_subset_insert[THEN subsetD])
next
  case (failure resp)
  then show ?thesis using inv tasks_ok_failure[OF x1 failure(1,2)] nth_mem[of h "tasks s"]
    by (auto simp: resuming_def held_requests_def row_of_request_def row_of_response_def dest!: set_update_subset_insert[THEN subsetD])
qed

lemma resuming_step:
  assumes inv: "resuming existing s"
    and x1: "tasks_ok s"
    and st: "step cfg a s = Some s'"
  shows "resuming existing s'"
  using st
proof (cases rule: step_cases)
  case (tick d)
  then show ?thesis using inv  by (simp add: resuming_def held_requests_def)
next
  case (main b)
  show ?thesis by (rule resuming_main_step[OF inv x1  main(2)])
next
  case (start h)
  show ?thesis by (rule resuming_task_start[OF inv x1  start(2)])
next
  case (response h res)
  show ?thesis by (rule resuming_task_response[OF inv x1  response(2)])
next
  case (appended h)
  show ?thesis by (rule resuming_task_appended[OF inv x1  appended(2)])
qed

lemma resuming_init:
  shows "resuming existing (init cfg t0 tl0 tpm requests existing)"
  by (simp add: resuming_def held_requests_def init_def)

lemma resuming_run:
  assumes r: "run cfg acts (init cfg t0 tl0 tpm requests existing) = Some s"
  shows "resuming existing s"
proof -
  have "(\<lambda>s. resuming existing s \<and> tasks_ok s) s"
  proof (rule run_invariant[where P = "\<lambda>s. resuming existing s \<and> tasks_ok s" and cfg = cfg])
    show "\<And>a s s'. (\<lambda>s. resuming existing s \<and> tasks_ok s) s \<Longrightarrow> step cfg a s = Some s' \<Longrightarrow> (\<lambda>s. resuming existing s \<and> tasks_ok s) s'"
      using resuming_step tasks_ok_step by blast
    show "(\<lambda>s. resuming existing s \<and> tasks_ok s) (init cfg t0 tl0 tpm requests existing)"
      using resuming_init tasks_ok_init by blast
    show "run cfg acts (init cfg t0 tl0 tpm requests existing) = Some s"
      by fact
  qed
  then show ?thesis by simp
qed

lemma rows_conserved_main_step:
  assumes inv: "rows_conserved rows s"
    and x1: "tasks_ok s"
    and x2: "resuming existing s"
    and st: "main_step cfg b s = Some s'"
  shows "rows_conserved rows s'"
  using st
proof (cases rule: main_step_cases)
  case (read g rest)
  then show ?thesis using inv 
    by (auto simp: rows_conserved_def logged_rows_def rows_to_log_def held_requests_def)
next
  case eof_gather
  then show ?thesis using inv 
    by (auto simp: rows_conserved_def logged_rows_def rows_to_log_def held_requests_def)
next
  case (eof_retry pc)
  then show ?thesis using inv retry_station_holds[OF eof_retry(5)]
    by (auto simp: rows_conserved_def logged_rows_def rows_to_log_def held_requests_def launch_first_eq rows_of_tasks_append)
next
  case (skip g)
  then show ?thesis using inv x2 completed_rows_logged[OF x2]
    by (auto simp: rows_conserved_def logged_rows_def rows_to_log_def held_requests_def launch_first_eq rows_of_tasks_append)
next
  case (first_sleep request est sem)
  then show ?thesis using inv first_origin_hand[OF first_sleep(1)]
    by (auto simp: rows_conserved_def logged_rows_def rows_to_log_def held_requests_def launch_first_eq rows_of_tasks_append)
next
  case (first_cool request est sem)
  then show ?thesis using inv first_origin_hand[OF first_cool(1)]
    by (auto simp: rows_conserved_def logged_rows_def rows_to_log_def held_requests_def launch_first_eq rows_of_tasks_append)
next
  case (first_launch request est sem)
  then show ?thesis using inv first_origin_hand[OF first_launch(1)]
    by (auto simp: rows_conserved_def logged_rows_def rows_to_log_def held_requests_def launch_first_eq rows_of_tasks_append)
next
  case (cooled_launch request est wake)
  then show ?thesis using inv 
    by (auto simp: rows_conserved_def logged_rows_def rows_to_log_def held_requests_def launch_first_eq rows_of_tasks_append)
next
  case wait_first
  then show ?thesis using inv 
    by (auto simp: rows_conserved_def logged_rows_def rows_to_log_def held_requests_def)
next
  case (gather pc)
  then show ?thesis using inv retry_station_holds[OF gather(4)]
    by (auto simp: rows_conserved_def logged_rows_def rows_to_log_def held_requests_def launch_first_eq rows_of_tasks_append)
next
  case (queue_empty sem)
  then show ?thesis using inv 
    by (auto simp: rows_conserved_def logged_rows_def rows_to_log_def held_requests_def)
next
  case (retry_sleep request est sem rest)
  then show ?thesis using inv retry_origin_flight[OF retry_sleep(1)]
    by (auto simp: rows_conserved_def logged_rows_def rows_to_log_def held_requests_def launch_first_eq rows_of_tasks_append)
next
  case (retry_launch request est sem rest pc)
  then show ?thesis using inv retry_origin_flight[OF retry_launch(1)] retry_station_holds[OF retry_launch(5)]
    by (auto simp: rows_conserved_def logged_rows_def rows_to_log_def held_requests_def launch_first_eq rows_of_tasks_append)
next
  case (wait_retries mode deadline pc)
  then show ?thesis using inv retry_station_holds[OF wait_retries(4)]
    by (auto simp: rows_conserved_def logged_rows_def rows_to_log_def held_requests_def launch_first_eq rows_of_tasks_append)
qed

lemma rows_conserved_task_start:
  assumes inv: "rows_conserved rows s"
    and x1: "tasks_ok s"
    and x2: "resuming existing s"
    and st: "task_start h s = Some s'"
  shows "rows_conserved rows s'"
  using inv task_start_effect[OF st] rows_of_tasks_keep[of h "tasks s" "(tasks s ! h)\<lparr>t_pc := AwaitHttp\<rparr>"]
  by (auto simp: rows_conserved_def logged_rows_def rows_to_log_def held_requests_def launch_first_eq rows_of_tasks_append)

lemma rows_conserved_task_response:
  assumes inv: "rows_conserved rows s"
    and x1: "tasks_ok s"
    and x2: "resuming existing s"
    and st: "task_response cfg h res s = Some s'"
  shows "rows_conserved rows s'"
  using st
proof (cases rule: task_response_cases)
  case (succeeded resp usage)
  then show ?thesis using inv rows_of_tasks_keep[of h "tasks s" "(tasks s ! h)\<lparr>t_pc := AwaitAppendSuccess resp\<rparr>"]
    by (auto simp: rows_conserved_def logged_rows_def rows_to_log_def held_requests_def launch_first_eq rows_of_tasks_append)
next
  case (requeued e st evs)
  then show ?thesis using inv rows_of_tasks_drop[of h "tasks s" "(tasks s ! h)\<lparr>t_pc := TaskDone\<rparr>"]
    by (auto simp: rows_conserved_def logged_rows_def rows_to_log_def held_requests_def launch_first_eq rows_of_tasks_append row_of_request_def)
next
  case (exhausted e resp st evs)
  then show ?thesis using inv rows_of_tasks_keep[of h "tasks s" "(tasks s ! h)\<lparr>t_request := (t_request (tasks s ! h))\<lparr>result := result (t_request (tasks s ! h)) @ [e]\<rparr>, t_pc := AwaitAppendFailure resp\<rparr>"]
    by (auto simp: rows_conserved_def logged_rows_def rows_to_log_def held_requests_def launch_first_eq rows_of_tasks_append row_of_request_def)
qed

lemma rows_conserved_task_appended:
  assumes inv: "rows_conserved rows s"
    and x1: "tasks_ok s"
    and x2: "resuming existing s"
    and st: "task_appended h s = Some s'"
  shows "rows_conserved rows s'"
  using st
proof (cases rule: task_appended_cases)
  case (success resp)
  then show ?thesis using inv tasks_ok_success[OF x1 success(1,2)] rows_of_tasks_drop[of h "tasks s" "(tasks s ! h)\<lparr>t_pc := TaskDone\<rparr>"]
    by (auto simp: rows_conserved_def logged_rows_def rows_to_log_def held_requests_def launch_first_eq rows_of_tasks_append row_of_request_def row_of_response_def)
next
  case (failure resp)
  then show ?thesis using inv tasks_ok_failure[OF x1 failure(1,2)] rows_of_tasks_drop[of h "tasks s" "(tasks s ! h)\<lparr>t_pc := TaskDone\<rparr>"]
    by (auto simp: rows_conserved_def logged_rows_def rows_to_log_def held_requests_def launch_first_eq rows_of_tasks_append row_of_request_def row_of_response_def)
qed

lemma rows_conserved_step:
  assumes inv: "rows_conserved rows s"
    and x1: "tasks_ok s"
    and x2: "resuming existing s"
    and st: "step cfg a s = Some s'"
  shows "rows_conserved rows s'"
  using st
proof (cases rule: step_cases)
  case (tick d)
  then show ?thesis using inv  by (simp add: rows_conserved_def logged_rows_def rows_to_log_def held_requests_def)
next
  case (main b)
  show ?thesis by (rule rows_conserved_main_step[OF inv x1 x2  main(2)])
next
  case (start h)
  show ?thesis by (rule rows_conserved_task_start[OF inv x1 x2  start(2)])
next
  case (response h res)
  show ?thesis by (rule rows_conserved_task_response[OF inv x1 x2  response(2)])
next
  case (appended h)
  show ?thesis by (rule rows_conserved_task_appended[OF inv x1 x2  appended(2)])
qed

lemma rows_conserved_init:
  assumes c1: "rows = validate_existing_response_file existing \<union> set (map original_row_idx requests)"
  shows "rows_conserved rows (init cfg t0 tl0 tpm requests existing)"
  using c1 by (simp add: rows_conserved_def logged_rows_def rows_to_log_def held_requests_def init_def rows_of_tasks_def validate_existing_response_file_def row_of_response_def)

lemma rows_conserved_run:
  assumes r: "run cfg acts (init cfg t0 tl0 tpm requests existing) = Some s"
    and c1: "rows = validate_existing_response_file existing \<union> set (map original_row_idx requests)"
  shows "rows_conserved rows s"
proof -
  have "(\<lambda>s. rows_conserved rows s \<and> tasks_ok s \<and> resuming existing s) s"
  proof (rule run_invariant[where P = "\<lambda>s. rows_conserved rows s \<and> tasks_ok s \<and> resuming existing s" and cfg = cfg])
    show "\<And>a s s'. (\<lambda>s. rows_conserved rows s \<and> tasks_ok s \<and> resuming existing s) s \<Longrightarrow> step cfg a s = Some s' \<Longrightarrow> (\<lambda>s. rows_conserved rows s \<and> tasks_ok s \<and> resuming existing s) s'"
      using rows_conserved_step tasks_ok_step resuming_step by blast
    show "(\<lambda>s. rows_conserved rows s \<and> tasks_ok s \<and> resuming existing s) (init cfg t0 tl0 tpm requests existing)"
      using rows_conserved_init[OF c1] tasks_ok_init resuming_init by blast
    show "run cfg acts (init cfg t0 tl0 tpm requests existing) = Some s"
      by fact
  qed
  then show ?thesis by simp
qed


lemma finished_nothing_to_log:
  assumes "well_formed s" and "main s = Finished"
  shows "rows_to_log s = {}"
proof -
  have "live_tasks s = 0" using assms by (rule finished_no_live_tasks)
  then have "filter (\<lambda>t. t_pc t \<noteq> TaskDone) (tasks s) = []"
    by (simp add: live_tasks_def)
  then show ?thesis
    using assms by (simp add: rows_to_log_def rows_of_tasks_def held_requests_def well_formed_def)
qed

lemma finished_logged_rows:
  assumes "run cfg acts (init cfg t0 tl0 tpm requests existing) = Some s" and "main s = Finished"
  shows "logged_rows s
           = validate_existing_response_file existing \<union> set (map original_row_idx requests)"
proof -
  have "rows_conserved
          (validate_existing_response_file existing \<union> set (map original_row_idx requests)) s"
    using assms(1) by (rule rows_conserved_run) simp
  moreover have "rows_to_log s = {}"
    using well_formed_run[OF assms(1)] assms(2) by (rule finished_nothing_to_log)
  ultimately show ?thesis by (simp add: rows_conserved_def)
qed

subsection \<open>The cool-down after a rate-limit error\<close>

lemma last_rate_limit_error_events:
  "last_rate_limit_error tl0 (map (Pair t) evs @ tr)
     = (if \<exists>h. RateLimitError h \<in> set evs then t
        else last_rate_limit_error tl0 tr)"
proof (induction evs)
  case Nil
  then show ?case by simp
next
  case (Cons e evs)
  then show ?case by (cases e) auto
qed

lemma last_rate_limit_error_failure:
  assumes "failure_events h evs"
  shows "last_rate_limit_error tl0 (rev (map (Pair t) evs) @ tr)
           = (if RateLimitError h \<in> set evs then t else last_rate_limit_error tl0 tr)"
proof -
  have "last_rate_limit_error tl0 (map (Pair t) (rev evs) @ tr)
          = (if \<exists>h. RateLimitError h \<in> set (rev evs) then t else last_rate_limit_error tl0 tr)"
    using last_rate_limit_error_events[of tl0 t "rev evs" tr] by simp
  moreover have "(\<exists>h'. RateLimitError h' \<in> set evs) = (RateLimitError h \<in> set evs)"
    using assms by (auto simp: failure_events_def)
  ultimately show ?thesis by (simp add: rev_map)
qed

lemma cool_down_check_events:
  assumes "\<forall>e \<in> set evs. (\<forall>checked. e \<noteq> CoolDownCheck checked) \<and> (\<forall>h. e \<noteq> CreateTask h)"
  shows "cool_down_check (map (Pair t) evs @ tr) = cool_down_check tr"
  using assms
proof (induction evs)
  case Nil
  then show ?case by simp
next
  case (Cons e evs)
  then show ?case by (cases e) auto
qed

lemma cool_down_check_failure:
  assumes "failure_events h evs"
  shows "cool_down_check (rev (map (Pair t) evs) @ tr) = cool_down_check tr"
proof -
  have "\<forall>e \<in> set (rev evs). (\<forall>checked. e \<noteq> CoolDownCheck checked) \<and> (\<forall>h. e \<noteq> CreateTask h)"
    using assms by (auto simp: failure_events_def)
  from cool_down_check_events[OF this, of t tr] show ?thesis by (simp add: rev_map)
qed

lemma retry_station_not_cool_down: "retry_station cfg s pc \<Longrightarrow> pc \<noteq> CoolDown request est wake"
  by (auto simp: retry_station_def)

lemma last_error_recorded_main_step:
  assumes inv: "last_error_recorded tl0 s"
    and st: "main_step cfg b s = Some s'"
  shows "last_error_recorded tl0 s'"
  using st
proof (cases rule: main_step_cases)
  case (read g rest)
  then show ?thesis using inv 
    by (auto simp: last_error_recorded_def launch_first_eq free_capacity_events_def same_task_counters_def)
next
  case eof_gather
  then show ?thesis using inv 
    by (auto simp: last_error_recorded_def launch_first_eq free_capacity_events_def same_task_counters_def)
next
  case (eof_retry pc)
  then show ?thesis using inv 
    by (auto simp: last_error_recorded_def launch_first_eq free_capacity_events_def same_task_counters_def)
next
  case (skip g)
  then show ?thesis using inv 
    by (auto simp: last_error_recorded_def launch_first_eq free_capacity_events_def same_task_counters_def)
next
  case (first_sleep request est sem)
  then show ?thesis using inv 
    by (auto simp: last_error_recorded_def launch_first_eq free_capacity_events_def same_task_counters_def)
next
  case (first_cool request est sem)
  then show ?thesis using inv 
    by (auto simp: last_error_recorded_def launch_first_eq free_capacity_events_def same_task_counters_def)
next
  case (first_launch request est sem)
  then show ?thesis using inv 
    by (auto simp: last_error_recorded_def launch_first_eq free_capacity_events_def same_task_counters_def)
next
  case (cooled_launch request est wake)
  then show ?thesis using inv 
    by (auto simp: last_error_recorded_def launch_first_eq free_capacity_events_def same_task_counters_def)
next
  case wait_first
  then show ?thesis using inv 
    by (auto simp: last_error_recorded_def launch_first_eq free_capacity_events_def same_task_counters_def)
next
  case (gather pc)
  then show ?thesis using inv 
    by (auto simp: last_error_recorded_def launch_first_eq free_capacity_events_def same_task_counters_def)
next
  case (queue_empty sem)
  then show ?thesis using inv 
    by (auto simp: last_error_recorded_def launch_first_eq free_capacity_events_def same_task_counters_def)
next
  case (retry_sleep request est sem rest)
  then show ?thesis using inv 
    by (auto simp: last_error_recorded_def launch_first_eq free_capacity_events_def same_task_counters_def)
next
  case (retry_launch request est sem rest pc)
  then show ?thesis using inv 
    by (auto simp: last_error_recorded_def launch_first_eq free_capacity_events_def same_task_counters_def)
next
  case (wait_retries mode deadline pc)
  then show ?thesis using inv 
    by (auto simp: last_error_recorded_def launch_first_eq free_capacity_events_def same_task_counters_def)
qed

lemma last_error_recorded_task_start:
  assumes inv: "last_error_recorded tl0 s"
    and st: "task_start h s = Some s'"
  shows "last_error_recorded tl0 s'"
  using inv task_start_effect[OF st] 
  by (auto simp: last_error_recorded_def launch_first_eq free_capacity_events_def same_task_counters_def)

lemma last_error_recorded_task_response:
  assumes inv: "last_error_recorded tl0 s"
    and st: "task_response cfg h res s = Some s'"
  shows "last_error_recorded tl0 s'"
  using st
proof (cases rule: task_response_cases)
  case (succeeded resp usage)
  then show ?thesis using inv 
    by (auto simp: last_error_recorded_def launch_first_eq free_capacity_events_def same_task_counters_def)
next
  case (requeued e st evs)
  then show ?thesis using inv last_rate_limit_error_failure[OF requeued(4), of tl0 "now s" "trace s"]
    by (auto simp: last_error_recorded_def)
next
  case (exhausted e resp st evs)
  then show ?thesis using inv last_rate_limit_error_failure[OF exhausted(7), of tl0 "now s" "trace s"]
    by (auto simp: last_error_recorded_def)
qed

lemma last_error_recorded_task_appended:
  assumes inv: "last_error_recorded tl0 s"
    and st: "task_appended h s = Some s'"
  shows "last_error_recorded tl0 s'"
  using st
proof (cases rule: task_appended_cases)
  case (success resp)
  then show ?thesis using inv 
    by (auto simp: last_error_recorded_def launch_first_eq free_capacity_events_def same_task_counters_def)
next
  case (failure resp)
  then show ?thesis using inv 
    by (auto simp: last_error_recorded_def launch_first_eq free_capacity_events_def same_task_counters_def)
qed

lemma last_error_recorded_step:
  assumes inv: "last_error_recorded tl0 s"
    and st: "step cfg a s = Some s'"
  shows "last_error_recorded tl0 s'"
  using st
proof (cases rule: step_cases)
  case (tick d)
  then show ?thesis using inv  by (simp add: last_error_recorded_def launch_first_eq free_capacity_events_def same_task_counters_def)
next
  case (main b)
  show ?thesis by (rule last_error_recorded_main_step[OF inv   main(2)])
next
  case (start h)
  show ?thesis by (rule last_error_recorded_task_start[OF inv   start(2)])
next
  case (response h res)
  show ?thesis by (rule last_error_recorded_task_response[OF inv   response(2)])
next
  case (appended h)
  show ?thesis by (rule last_error_recorded_task_appended[OF inv   appended(2)])
qed

lemma last_error_recorded_init:
  shows "last_error_recorded tl0 (init cfg t0 tl0 tpm requests existing)"
  by (simp add: last_error_recorded_def init_def)

lemma last_error_recorded_run:
  assumes r: "run cfg acts (init cfg t0 tl0 tpm requests existing) = Some s"
  shows "last_error_recorded tl0 s"
proof -
  have "(\<lambda>s. last_error_recorded tl0 s) s"
  proof (rule run_invariant[where P = "\<lambda>s. last_error_recorded tl0 s" and cfg = cfg])
    show "\<And>a s s'. (\<lambda>s. last_error_recorded tl0 s) s \<Longrightarrow> step cfg a s = Some s' \<Longrightarrow> (\<lambda>s. last_error_recorded tl0 s) s'"
      using last_error_recorded_step  by blast
    show "(\<lambda>s. last_error_recorded tl0 s) (init cfg t0 tl0 tpm requests existing)"
      using last_error_recorded_init  by blast
    show "run cfg acts (init cfg t0 tl0 tpm requests existing) = Some s"
      by fact
  qed
  then show ?thesis by simp
qed

lemma cooling_main_step:
  assumes inv: "cooling cfg tl0 s"
    and x1: "last_error_recorded tl0 s"
    and st: "main_step cfg b s = Some s'"
  shows "cooling cfg tl0 s'"
  using st
proof (cases rule: main_step_cases)
  case (read g rest)
  then show ?thesis using inv 
    by (auto simp: cooling_def launch_first_eq free_capacity_events_def)
next
  case eof_gather
  then show ?thesis using inv 
    by (auto simp: cooling_def launch_first_eq free_capacity_events_def)
next
  case (eof_retry pc)
  then show ?thesis using inv eof_retry(5)
    by (auto simp: cooling_def dest: retry_station_not_cool_down)
next
  case (skip g)
  then show ?thesis using inv 
    by (auto simp: cooling_def launch_first_eq free_capacity_events_def)
next
  case (first_sleep request est sem)
  then show ?thesis using inv 
    by (auto simp: cooling_def launch_first_eq free_capacity_events_def)
next
  case (first_cool request est sem)
  then show ?thesis using inv x1
    by (auto simp: cooling_def last_error_recorded_def)
next
  case (first_launch request est sem)
  then show ?thesis using inv 
    by (auto simp: cooling_def launch_first_eq free_capacity_events_def)
next
  case (cooled_launch request est wake)
  then show ?thesis using inv 
    by (auto simp: cooling_def launch_first_eq free_capacity_events_def)
next
  case wait_first
  then show ?thesis using inv 
    by (auto simp: cooling_def launch_first_eq free_capacity_events_def)
next
  case (gather pc)
  then show ?thesis using inv gather(4)
    by (auto simp: cooling_def dest: retry_station_not_cool_down)
next
  case (queue_empty sem)
  then show ?thesis using inv 
    by (auto simp: cooling_def launch_first_eq free_capacity_events_def)
next
  case (retry_sleep request est sem rest)
  then show ?thesis using inv 
    by (auto simp: cooling_def launch_first_eq free_capacity_events_def)
next
  case (retry_launch request est sem rest pc)
  then show ?thesis using inv retry_launch(5)
    by (auto simp: cooling_def dest: retry_station_not_cool_down)
next
  case (wait_retries mode deadline pc)
  then show ?thesis using inv wait_retries(4)
    by (auto simp: cooling_def dest: retry_station_not_cool_down)
qed

lemma cooling_task_start:
  assumes inv: "cooling cfg tl0 s"
    and x1: "last_error_recorded tl0 s"
    and st: "task_start h s = Some s'"
  shows "cooling cfg tl0 s'"
  using inv task_start_effect[OF st] 
  by (auto simp: cooling_def launch_first_eq free_capacity_events_def)

lemma cooling_task_response:
  assumes inv: "cooling cfg tl0 s"
    and x1: "last_error_recorded tl0 s"
    and st: "task_response cfg h res s = Some s'"
  shows "cooling cfg tl0 s'"
  using st
proof (cases rule: task_response_cases)
  case (succeeded resp usage)
  then show ?thesis using inv 
    by (auto simp: cooling_def launch_first_eq free_capacity_events_def)
next
  case (requeued e st evs)
  then show ?thesis using inv cool_down_check_failure[OF requeued(4), of "now s" "trace s"]
    by (auto simp: cooling_def)
next
  case (exhausted e resp st evs)
  then show ?thesis using inv cool_down_check_failure[OF exhausted(7), of "now s" "trace s"]
    by (auto simp: cooling_def)
qed

lemma cooling_task_appended:
  assumes inv: "cooling cfg tl0 s"
    and x1: "last_error_recorded tl0 s"
    and st: "task_appended h s = Some s'"
  shows "cooling cfg tl0 s'"
  using st
proof (cases rule: task_appended_cases)
  case (success resp)
  then show ?thesis using inv 
    by (auto simp: cooling_def launch_first_eq free_capacity_events_def)
next
  case (failure resp)
  then show ?thesis using inv 
    by (auto simp: cooling_def launch_first_eq free_capacity_events_def)
qed

lemma cooling_step:
  assumes inv: "cooling cfg tl0 s"
    and x1: "last_error_recorded tl0 s"
    and st: "step cfg a s = Some s'"
  shows "cooling cfg tl0 s'"
  using st
proof (cases rule: step_cases)
  case (tick d)
  then show ?thesis using inv  by (simp add: cooling_def launch_first_eq free_capacity_events_def)
next
  case (main b)
  show ?thesis by (rule cooling_main_step[OF inv x1  main(2)])
next
  case (start h)
  show ?thesis by (rule cooling_task_start[OF inv x1  start(2)])
next
  case (response h res)
  show ?thesis by (rule cooling_task_response[OF inv x1  response(2)])
next
  case (appended h)
  show ?thesis by (rule cooling_task_appended[OF inv x1  appended(2)])
qed

lemma cooling_init:
  shows "cooling cfg tl0 (init cfg t0 tl0 tpm requests existing)"
  by (simp add: cooling_def init_def)

lemma cooling_run:
  assumes r: "run cfg acts (init cfg t0 tl0 tpm requests existing) = Some s"
  shows "cooling cfg tl0 s"
proof -
  have "(\<lambda>s. cooling cfg tl0 s \<and> last_error_recorded tl0 s) s"
  proof (rule run_invariant[where P = "\<lambda>s. cooling cfg tl0 s \<and> last_error_recorded tl0 s" and cfg = cfg])
    show "\<And>a s s'. (\<lambda>s. cooling cfg tl0 s \<and> last_error_recorded tl0 s) s \<Longrightarrow> step cfg a s = Some s' \<Longrightarrow> (\<lambda>s. cooling cfg tl0 s \<and> last_error_recorded tl0 s) s'"
      using cooling_step last_error_recorded_step by blast
    show "(\<lambda>s. cooling cfg tl0 s \<and> last_error_recorded tl0 s) (init cfg t0 tl0 tpm requests existing)"
      using cooling_init last_error_recorded_init by blast
    show "run cfg acts (init cfg t0 tl0 tpm requests existing) = Some s"
      by fact
  qed
  then show ?thesis by simp
qed


subsection \<open>Capacity: consumed before the task, freed before the success is logged\<close>

lemma first_origin_estimate:
  "first_origin cfg s request est sem \<Longrightarrow> estimates cfg tpm s \<Longrightarrow> limit_fixed tpm s \<Longrightarrow>
     est = estimate_for cfg tpm request"
  by (auto simp: first_origin_def estimates_def limit_fixed_def token_estimate_of_def
        estimate_for_def)

lemma retry_origin_estimate:
  "retry_origin cfg s request est sem rest \<Longrightarrow> estimates cfg tpm s \<Longrightarrow> limit_fixed tpm s \<Longrightarrow>
     est = estimate_for cfg tpm request"
  by (auto simp: retry_origin_def estimates_def limit_fixed_def token_estimate_of_def
        estimate_for_def)

lemma retry_station_estimates: "retry_station cfg s pc \<Longrightarrow> held_estimates pc = []"
  by (auto simp: retry_station_def)

lemma reserved_for_events:
  assumes "\<forall>e \<in> set evs. e \<noteq> CreateTask h"
  shows "reserved_for h (map (Pair t) evs @ tr) = reserved_for h tr"
  using assms by (induction evs) auto

lemma reserved_for_failure:
  assumes "failure_events h' evs"
  shows "reserved_for h (rev (map (Pair t) evs) @ tr) = reserved_for h tr"
proof -
  have "\<forall>e \<in> set (rev evs). e \<noteq> CreateTask h"
    using assms by (auto simp: failure_events_def)
  from reserved_for_events[OF this, of t tr] show ?thesis by (simp add: rev_map)
qed

lemma answered_none:
  assumes "answered s" and "h < length (tasks s)"
    and "t_pc (tasks s ! h) = AwaitHttp \<or> t_pc (tasks s ! h) = AwaitSemaphore"
  shows "\<not> list_ex (\<lambda>x. freed_task (snd x) = Some h) (trace s)
         \<and> \<not> list_ex (\<lambda>x. failed_task (snd x) = Some h) (trace s)"
  using assms by (auto simp: answered_def list_ex_iff)

lemma freed_list_ex:
  assumes "freed_before_append tpm s" and "reserved s" and "h < length (tasks s)"
    and "t_pc (tasks s ! h) = AwaitAppendSuccess resp"
  shows "list_ex (\<lambda>x. case snd x of
                        FreeCapacity h' used_capacity blocked_capacity \<Rightarrow>
                          h' = h \<and> reserved_for h (trace s) = Some blocked_capacity
                      | _ \<Rightarrow> False) (trace s)
         \<and> (tpm \<noteq> None \<longrightarrow>
              list_ex (\<lambda>x. case snd x of
                             TrackerFreeCapacity h' used_capacity blocked_capacity \<Rightarrow>
                               h' = h \<and> reserved_for h (trace s) = Some blocked_capacity
                           | _ \<Rightarrow> False) (trace s))"
proof -
  have r: "reserved_for h (trace s) = Some (t_blocked (tasks s ! h))"
    using assms(2,3) by (simp add: reserved_def)
  have "freed tpm (trace s) h (tasks s ! h)"
    using assms(1,3) by (simp add: freed_before_append_def)
  from this[unfolded freed_def, rule_format, OF assms(4)]
  obtain usage where
    u: "token_usage resp = Some usage
        \<and> FreeCapacity h \<lparr>tc_input = prompt_tokens usage, tc_output = completion_tokens usage\<rparr>
            (t_blocked (tasks s ! h)) \<in> snd ` set (trace s)
        \<and> (tpm \<noteq> None \<longrightarrow>
            TrackerFreeCapacity h \<lparr>tc_input = prompt_tokens usage, tc_output = completion_tokens usage\<rparr>
              (t_blocked (tasks s ! h)) \<in> snd ` set (trace s))" ..
  from u have
    f: "FreeCapacity h \<lparr>tc_input = prompt_tokens usage, tc_output = completion_tokens usage\<rparr>
          (t_blocked (tasks s ! h)) \<in> snd ` set (trace s)"
    and t: "tpm \<noteq> None \<longrightarrow>
          TrackerFreeCapacity h \<lparr>tc_input = prompt_tokens usage, tc_output = completion_tokens usage\<rparr>
            (t_blocked (tasks s ! h)) \<in> snd ` set (trace s)"
    by simp_all
  from f obtain x where x: "x \<in> set (trace s)"
    "snd x = FreeCapacity h \<lparr>tc_input = prompt_tokens usage, tc_output = completion_tokens usage\<rparr>
          (t_blocked (tasks s ! h))"
    by auto
  have 1: "list_ex (\<lambda>x. case snd x of
                        FreeCapacity h' used_capacity blocked_capacity \<Rightarrow>
                          h' = h \<and> reserved_for h (trace s) = Some blocked_capacity
                      | _ \<Rightarrow> False) (trace s)"
    unfolding list_ex_iff using x r by (intro bexI[of _ x]) simp_all
  have 2: "tpm \<noteq> None \<longrightarrow>
              list_ex (\<lambda>x. case snd x of
                             TrackerFreeCapacity h' used_capacity blocked_capacity \<Rightarrow>
                               h' = h \<and> reserved_for h (trace s) = Some blocked_capacity
                           | _ \<Rightarrow> False) (trace s)"
  proof
    assume "tpm \<noteq> None"
    with t obtain y where y: "y \<in> set (trace s)"
      "snd y = TrackerFreeCapacity h
                 \<lparr>tc_input = prompt_tokens usage, tc_output = completion_tokens usage\<rparr>
                 (t_blocked (tasks s ! h))"
      by auto
    show "list_ex (\<lambda>x. case snd x of
                             TrackerFreeCapacity h' used_capacity blocked_capacity \<Rightarrow>
                               h' = h \<and> reserved_for h (trace s) = Some blocked_capacity
                           | _ \<Rightarrow> False) (trace s)"
      unfolding list_ex_iff using y r by (intro bexI[of _ y]) simp_all
  qed
  from 1 2 show ?thesis by simp
qed

lemma capacity_order_events:
  assumes "set evs \<subseteq> {RateLimitError h, UpdateStats h, AttemptFailed h}"
    and "\<not> list_ex (\<lambda>x. freed_task (snd x) = Some h) tr"
    and "capacity_order l tr"
  shows "capacity_order l (map (Pair t) evs @ tr)"
  using assms(1)
proof (induction evs)
  case Nil
  then show ?case using assms(3) by simp
next
  case (Cons e evs)
  then have e: "e = RateLimitError h \<or> e = UpdateStats h \<or> e = AttemptFailed h"
    and sub: "set evs \<subseteq> {RateLimitError h, UpdateStats h, AttemptFailed h}"
    by auto
  have "\<not> list_ex (\<lambda>x. freed_task (snd x) = Some h) (map (Pair t) evs @ tr)"
    using sub assms(2) by (auto simp: list_ex_iff)
  then show ?case using e Cons.IH[OF sub] by auto
qed

lemma capacity_order_failure:
  assumes "failure_events h evs"
    and "\<not> list_ex (\<lambda>x. freed_task (snd x) = Some h) tr"
    and "capacity_order l tr"
  shows "capacity_order l (rev (map (Pair t) evs) @ tr)"
proof -
  have "set (rev evs) \<subseteq> {RateLimitError h, UpdateStats h, AttemptFailed h}"
    using assms(1) by (simp add: failure_events_def)
  from capacity_order_events[OF this assms(2,3), of t] show ?thesis by (simp add: rev_map)
qed

lemma freed_mono: "freed tpm tr h t \<Longrightarrow> set tr \<subseteq> set tr' \<Longrightarrow> freed tpm tr' h t"
  unfolding freed_def by (meson image_mono subsetD)

lemma freed_not_appending: "(\<And>resp. t_pc t \<noteq> AwaitAppendSuccess resp) \<Longrightarrow> freed tpm tr h t"
  by (simp add: freed_def)

lemma freed_pc:
  "freed tpm tr h t \<Longrightarrow> t_pc t' = t_pc t \<Longrightarrow> t_blocked t' = t_blocked t \<Longrightarrow> freed tpm tr h t'"
  by (simp add: freed_def)

lemma freed_before_append_grow:
  assumes "freed_before_append tpm s" and "set (trace s) \<subseteq> set tr'"
    and "h' < length (tasks s)"
  shows "freed tpm tr' h' (tasks s ! h')"
  using assms freed_mono by (auto simp: freed_before_append_def)

lemma freed_before_append_update:
  assumes "freed_before_append tpm s" and "set (trace s) \<subseteq> set tr'"
    and "freed tpm tr' h t'" and "h' < length (tasks s)"
  shows "freed tpm tr' h' ((tasks s)[h := t'] ! h')"
  using assms freed_before_append_grow[OF assms(1,2,4)]
  by (cases "h' = h") (auto simp: nth_list_update)

lemma limit_fixed_main_step:
  assumes inv: "limit_fixed tpm s"
    and st: "main_step cfg b s = Some s'"
  shows "limit_fixed tpm s'"
  using st
proof (cases rule: main_step_cases)
  case (read g rest)
  then show ?thesis using inv 
    by (auto simp: limit_fixed_def launch_first_eq same_task_counters_def)
next
  case eof_gather
  then show ?thesis using inv 
    by (auto simp: limit_fixed_def launch_first_eq same_task_counters_def)
next
  case (eof_retry pc)
  then show ?thesis using inv 
    by (auto simp: limit_fixed_def launch_first_eq same_task_counters_def)
next
  case (skip g)
  then show ?thesis using inv 
    by (auto simp: limit_fixed_def launch_first_eq same_task_counters_def)
next
  case (first_sleep request est sem)
  then show ?thesis using inv 
    by (auto simp: limit_fixed_def launch_first_eq same_task_counters_def)
next
  case (first_cool request est sem)
  then show ?thesis using inv 
    by (auto simp: limit_fixed_def launch_first_eq same_task_counters_def)
next
  case (first_launch request est sem)
  then show ?thesis using inv 
    by (auto simp: limit_fixed_def launch_first_eq same_task_counters_def)
next
  case (cooled_launch request est wake)
  then show ?thesis using inv 
    by (auto simp: limit_fixed_def launch_first_eq same_task_counters_def)
next
  case wait_first
  then show ?thesis using inv 
    by (auto simp: limit_fixed_def launch_first_eq same_task_counters_def)
next
  case (gather pc)
  then show ?thesis using inv 
    by (auto simp: limit_fixed_def launch_first_eq same_task_counters_def)
next
  case (queue_empty sem)
  then show ?thesis using inv 
    by (auto simp: limit_fixed_def launch_first_eq same_task_counters_def)
next
  case (retry_sleep request est sem rest)
  then show ?thesis using inv 
    by (auto simp: limit_fixed_def launch_first_eq same_task_counters_def)
next
  case (retry_launch request est sem rest pc)
  then show ?thesis using inv 
    by (auto simp: limit_fixed_def launch_first_eq same_task_counters_def)
next
  case (wait_retries mode deadline pc)
  then show ?thesis using inv 
    by (auto simp: limit_fixed_def launch_first_eq same_task_counters_def)
qed

lemma limit_fixed_task_start:
  assumes inv: "limit_fixed tpm s"
    and st: "task_start h s = Some s'"
  shows "limit_fixed tpm s'"
  using inv task_start_effect[OF st] 
  by (auto simp: limit_fixed_def launch_first_eq same_task_counters_def)

lemma limit_fixed_task_response:
  assumes inv: "limit_fixed tpm s"
    and st: "task_response cfg h res s = Some s'"
  shows "limit_fixed tpm s'"
  using st
proof (cases rule: task_response_cases)
  case (succeeded resp usage)
  then show ?thesis using inv 
    by (auto simp: limit_fixed_def launch_first_eq same_task_counters_def)
next
  case (requeued e st evs)
  then show ?thesis using inv 
    by (auto simp: limit_fixed_def launch_first_eq same_task_counters_def)
next
  case (exhausted e resp st evs)
  then show ?thesis using inv 
    by (auto simp: limit_fixed_def launch_first_eq same_task_counters_def)
qed

lemma limit_fixed_task_appended:
  assumes inv: "limit_fixed tpm s"
    and st: "task_appended h s = Some s'"
  shows "limit_fixed tpm s'"
  using st
proof (cases rule: task_appended_cases)
  case (success resp)
  then show ?thesis using inv 
    by (auto simp: limit_fixed_def launch_first_eq same_task_counters_def)
next
  case (failure resp)
  then show ?thesis using inv 
    by (auto simp: limit_fixed_def launch_first_eq same_task_counters_def)
qed

lemma limit_fixed_step:
  assumes inv: "limit_fixed tpm s"
    and st: "step cfg a s = Some s'"
  shows "limit_fixed tpm s'"
  using st
proof (cases rule: step_cases)
  case (tick d)
  then show ?thesis using inv  by (simp add: limit_fixed_def launch_first_eq same_task_counters_def)
next
  case (main b)
  show ?thesis by (rule limit_fixed_main_step[OF inv   main(2)])
next
  case (start h)
  show ?thesis by (rule limit_fixed_task_start[OF inv   start(2)])
next
  case (response h res)
  show ?thesis by (rule limit_fixed_task_response[OF inv   response(2)])
next
  case (appended h)
  show ?thesis by (rule limit_fixed_task_appended[OF inv   appended(2)])
qed

lemma limit_fixed_init:
  shows "limit_fixed tpm (init cfg t0 tl0 tpm requests existing)"
  by (simp add: limit_fixed_def init_def)

lemma limit_fixed_run:
  assumes r: "run cfg acts (init cfg t0 tl0 tpm requests existing) = Some s"
  shows "limit_fixed tpm s"
proof -
  have "(\<lambda>s. limit_fixed tpm s) s"
  proof (rule run_invariant[where P = "\<lambda>s. limit_fixed tpm s" and cfg = cfg])
    show "\<And>a s s'. (\<lambda>s. limit_fixed tpm s) s \<Longrightarrow> step cfg a s = Some s' \<Longrightarrow> (\<lambda>s. limit_fixed tpm s) s'"
      by (auto intro: limit_fixed_step )
    show "(\<lambda>s. limit_fixed tpm s) (init cfg t0 tl0 tpm requests existing)"
      by (simp add: limit_fixed_init )
    show "run cfg acts (init cfg t0 tl0 tpm requests existing) = Some s"
      by fact
  qed
  then show ?thesis by simp
qed

lemma estimates_main_step:
  assumes inv: "estimates cfg tpm s"
    and x1: "limit_fixed tpm s"
    and st: "main_step cfg b s = Some s'"
  shows "estimates cfg tpm s'"
  using st
proof (cases rule: main_step_cases)
  case (read g rest)
  then show ?thesis using inv 
    by (auto simp: estimates_def launch_first_eq new_task_def)
next
  case eof_gather
  then show ?thesis using inv 
    by (auto simp: estimates_def launch_first_eq new_task_def)
next
  case (eof_retry pc)
  then show ?thesis using inv retry_station_estimates[OF eof_retry(5)]
    by (auto simp: estimates_def new_task_def limit_fixed_def)
next
  case (skip g)
  then show ?thesis using inv 
    by (auto simp: estimates_def launch_first_eq new_task_def)
next
  case (first_sleep request est sem)
  then show ?thesis using inv x1 first_origin_estimate[OF first_sleep(1)]
    by (auto simp: estimates_def launch_first_eq new_task_def limit_fixed_def)
next
  case (first_cool request est sem)
  then show ?thesis using inv x1 first_origin_estimate[OF first_cool(1)]
    by (auto simp: estimates_def launch_first_eq new_task_def limit_fixed_def)
next
  case (first_launch request est sem)
  then show ?thesis using inv x1 first_origin_estimate[OF first_launch(1)]
    by (auto simp: estimates_def launch_first_eq new_task_def limit_fixed_def)
next
  case (cooled_launch request est wake)
  then show ?thesis using inv 
    by (auto simp: estimates_def launch_first_eq new_task_def)
next
  case wait_first
  then show ?thesis using inv 
    by (auto simp: estimates_def launch_first_eq new_task_def)
next
  case (gather pc)
  then show ?thesis using inv retry_station_estimates[OF gather(4)]
    by (auto simp: estimates_def new_task_def limit_fixed_def)
next
  case (queue_empty sem)
  then show ?thesis using inv 
    by (auto simp: estimates_def launch_first_eq new_task_def)
next
  case (retry_sleep request est sem rest)
  then show ?thesis using inv x1 retry_origin_estimate[OF retry_sleep(1)]
    by (auto simp: estimates_def launch_first_eq new_task_def limit_fixed_def)
next
  case (retry_launch request est sem rest pc)
  then show ?thesis using inv x1 retry_origin_estimate[OF retry_launch(1)] retry_station_estimates[OF retry_launch(5)]
    by (auto simp: estimates_def new_task_def limit_fixed_def)
next
  case (wait_retries mode deadline pc)
  then show ?thesis using inv retry_station_estimates[OF wait_retries(4)]
    by (auto simp: estimates_def new_task_def limit_fixed_def)
qed

lemma estimates_task_start:
  assumes inv: "estimates cfg tpm s"
    and x1: "limit_fixed tpm s"
    and st: "task_start h s = Some s'"
  shows "estimates cfg tpm s'"
  using inv task_start_effect[OF st] nth_mem[of h "tasks s"]
  by (auto simp: estimates_def estimate_for_def dest!: set_update_subset_insert[THEN subsetD])

lemma estimates_task_response:
  assumes inv: "estimates cfg tpm s"
    and x1: "limit_fixed tpm s"
    and st: "task_response cfg h res s = Some s'"
  shows "estimates cfg tpm s'"
  using st
proof (cases rule: task_response_cases)
  case (succeeded resp usage)
  then show ?thesis using inv nth_mem[of h "tasks s"]
    by (auto simp: estimates_def estimate_for_def dest!: set_update_subset_insert[THEN subsetD])
next
  case (requeued e st evs)
  then show ?thesis using inv nth_mem[of h "tasks s"]
    by (auto simp: estimates_def estimate_for_def dest!: set_update_subset_insert[THEN subsetD])
next
  case (exhausted e resp st evs)
  then show ?thesis using inv nth_mem[of h "tasks s"]
    by (auto simp: estimates_def estimate_for_def dest!: set_update_subset_insert[THEN subsetD])
qed

lemma estimates_task_appended:
  assumes inv: "estimates cfg tpm s"
    and x1: "limit_fixed tpm s"
    and st: "task_appended h s = Some s'"
  shows "estimates cfg tpm s'"
  using st
proof (cases rule: task_appended_cases)
  case (success resp)
  then show ?thesis using inv nth_mem[of h "tasks s"]
    by (auto simp: estimates_def estimate_for_def dest!: set_update_subset_insert[THEN subsetD])
next
  case (failure resp)
  then show ?thesis using inv nth_mem[of h "tasks s"]
    by (auto simp: estimates_def estimate_for_def dest!: set_update_subset_insert[THEN subsetD])
qed

lemma estimates_step:
  assumes inv: "estimates cfg tpm s"
    and x1: "limit_fixed tpm s"
    and st: "step cfg a s = Some s'"
  shows "estimates cfg tpm s'"
  using st
proof (cases rule: step_cases)
  case (tick d)
  then show ?thesis using inv  by (simp add: estimates_def launch_first_eq new_task_def)
next
  case (main b)
  show ?thesis by (rule estimates_main_step[OF inv x1  main(2)])
next
  case (start h)
  show ?thesis by (rule estimates_task_start[OF inv x1  start(2)])
next
  case (response h res)
  show ?thesis by (rule estimates_task_response[OF inv x1  response(2)])
next
  case (appended h)
  show ?thesis by (rule estimates_task_appended[OF inv x1  appended(2)])
qed

lemma estimates_init:
  shows "estimates cfg tpm (init cfg t0 tl0 tpm requests existing)"
  by (simp add: estimates_def init_def)

lemma estimates_run:
  assumes r: "run cfg acts (init cfg t0 tl0 tpm requests existing) = Some s"
  shows "estimates cfg tpm s"
proof -
  have "(\<lambda>s. estimates cfg tpm s \<and> limit_fixed tpm s) s"
  proof (rule run_invariant[where P = "\<lambda>s. estimates cfg tpm s \<and> limit_fixed tpm s" and cfg = cfg])
    show "\<And>a s s'. (\<lambda>s. estimates cfg tpm s \<and> limit_fixed tpm s) s \<Longrightarrow> step cfg a s = Some s' \<Longrightarrow> (\<lambda>s. estimates cfg tpm s \<and> limit_fixed tpm s) s'"
      by (auto intro: estimates_step limit_fixed_step)
    show "(\<lambda>s. estimates cfg tpm s \<and> limit_fixed tpm s) (init cfg t0 tl0 tpm requests existing)"
      by (simp add: estimates_init limit_fixed_init)
    show "run cfg acts (init cfg t0 tl0 tpm requests existing) = Some s"
      by fact
  qed
  then show ?thesis by simp
qed

lemma reserved_main_step:
  assumes inv: "reserved s"
    and st: "main_step cfg b s = Some s'"
  shows "reserved s'"
  using st
proof (cases rule: main_step_cases)
  case (read g rest)
  then show ?thesis using inv 
    by (auto simp: reserved_def launch_first_eq new_task_def nth_append less_Suc_eq nth_list_update free_capacity_events_def)
next
  case eof_gather
  then show ?thesis using inv 
    by (auto simp: reserved_def launch_first_eq new_task_def nth_append less_Suc_eq nth_list_update free_capacity_events_def)
next
  case (eof_retry pc)
  then show ?thesis using inv 
    by (auto simp: reserved_def launch_first_eq new_task_def nth_append less_Suc_eq nth_list_update free_capacity_events_def)
next
  case (skip g)
  then show ?thesis using inv 
    by (auto simp: reserved_def launch_first_eq new_task_def nth_append less_Suc_eq nth_list_update free_capacity_events_def)
next
  case (first_sleep request est sem)
  then show ?thesis using inv 
    by (auto simp: reserved_def launch_first_eq new_task_def nth_append less_Suc_eq nth_list_update free_capacity_events_def)
next
  case (first_cool request est sem)
  then show ?thesis using inv 
    by (auto simp: reserved_def launch_first_eq new_task_def nth_append less_Suc_eq nth_list_update free_capacity_events_def)
next
  case (first_launch request est sem)
  then show ?thesis using inv 
    by (auto simp: reserved_def launch_first_eq new_task_def nth_append less_Suc_eq nth_list_update free_capacity_events_def)
next
  case (cooled_launch request est wake)
  then show ?thesis using inv 
    by (auto simp: reserved_def launch_first_eq new_task_def nth_append less_Suc_eq nth_list_update free_capacity_events_def)
next
  case wait_first
  then show ?thesis using inv 
    by (auto simp: reserved_def launch_first_eq new_task_def nth_append less_Suc_eq nth_list_update free_capacity_events_def)
next
  case (gather pc)
  then show ?thesis using inv 
    by (auto simp: reserved_def launch_first_eq new_task_def nth_append less_Suc_eq nth_list_update free_capacity_events_def)
next
  case (queue_empty sem)
  then show ?thesis using inv 
    by (auto simp: reserved_def launch_first_eq new_task_def nth_append less_Suc_eq nth_list_update free_capacity_events_def)
next
  case (retry_sleep request est sem rest)
  then show ?thesis using inv 
    by (auto simp: reserved_def launch_first_eq new_task_def nth_append less_Suc_eq nth_list_update free_capacity_events_def)
next
  case (retry_launch request est sem rest pc)
  then show ?thesis using inv 
    by (auto simp: reserved_def launch_first_eq new_task_def nth_append less_Suc_eq nth_list_update free_capacity_events_def)
next
  case (wait_retries mode deadline pc)
  then show ?thesis using inv 
    by (auto simp: reserved_def launch_first_eq new_task_def nth_append less_Suc_eq nth_list_update free_capacity_events_def)
qed

lemma reserved_task_start:
  assumes inv: "reserved s"
    and st: "task_start h s = Some s'"
  shows "reserved s'"
  using inv task_start_effect[OF st] 
  by (auto simp: reserved_def launch_first_eq new_task_def nth_append less_Suc_eq nth_list_update free_capacity_events_def)

lemma reserved_task_response:
  assumes inv: "reserved s"
    and st: "task_response cfg h res s = Some s'"
  shows "reserved s'"
  using st
proof (cases rule: task_response_cases)
  case (succeeded resp usage)
  then show ?thesis using inv 
    by (auto simp: reserved_def launch_first_eq new_task_def nth_append less_Suc_eq nth_list_update free_capacity_events_def)
next
  case (requeued e st evs)
  then show ?thesis using inv reserved_for_failure[OF requeued(4), of _ "now s" "trace s"]
    by (auto simp: reserved_def nth_list_update)
next
  case (exhausted e resp st evs)
  then show ?thesis using inv reserved_for_failure[OF exhausted(7), of _ "now s" "trace s"]
    by (auto simp: reserved_def nth_list_update)
qed

lemma reserved_task_appended:
  assumes inv: "reserved s"
    and st: "task_appended h s = Some s'"
  shows "reserved s'"
  using st
proof (cases rule: task_appended_cases)
  case (success resp)
  then show ?thesis using inv 
    by (auto simp: reserved_def launch_first_eq new_task_def nth_append less_Suc_eq nth_list_update free_capacity_events_def)
next
  case (failure resp)
  then show ?thesis using inv 
    by (auto simp: reserved_def launch_first_eq new_task_def nth_append less_Suc_eq nth_list_update free_capacity_events_def)
qed

lemma reserved_step:
  assumes inv: "reserved s"
    and st: "step cfg a s = Some s'"
  shows "reserved s'"
  using st
proof (cases rule: step_cases)
  case (tick d)
  then show ?thesis using inv  by (simp add: reserved_def launch_first_eq new_task_def nth_append less_Suc_eq nth_list_update free_capacity_events_def)
next
  case (main b)
  show ?thesis by (rule reserved_main_step[OF inv   main(2)])
next
  case (start h)
  show ?thesis by (rule reserved_task_start[OF inv   start(2)])
next
  case (response h res)
  show ?thesis by (rule reserved_task_response[OF inv   response(2)])
next
  case (appended h)
  show ?thesis by (rule reserved_task_appended[OF inv   appended(2)])
qed

lemma reserved_init:
  shows "reserved (init cfg t0 tl0 tpm requests existing)"
  by (simp add: reserved_def init_def)

lemma reserved_run:
  assumes r: "run cfg acts (init cfg t0 tl0 tpm requests existing) = Some s"
  shows "reserved s"
proof -
  have "(\<lambda>s. reserved s) s"
  proof (rule run_invariant[where P = "\<lambda>s. reserved s" and cfg = cfg])
    show "\<And>a s s'. (\<lambda>s. reserved s) s \<Longrightarrow> step cfg a s = Some s' \<Longrightarrow> (\<lambda>s. reserved s) s'"
      by (auto intro: reserved_step )
    show "(\<lambda>s. reserved s) (init cfg t0 tl0 tpm requests existing)"
      by (simp add: reserved_init )
    show "run cfg acts (init cfg t0 tl0 tpm requests existing) = Some s"
      by fact
  qed
  then show ?thesis by simp
qed

lemma answered_main_step:
  assumes inv: "answered s"
    and st: "main_step cfg b s = Some s'"
  shows "answered s'"
  using st
proof (cases rule: main_step_cases)
  case (read g rest)
  then show ?thesis using inv 
    by (auto simp: answered_def launch_first_eq new_task_def nth_append less_Suc_eq nth_list_update free_capacity_events_def failure_events_def)
next
  case eof_gather
  then show ?thesis using inv 
    by (auto simp: answered_def launch_first_eq new_task_def nth_append less_Suc_eq nth_list_update free_capacity_events_def failure_events_def)
next
  case (eof_retry pc)
  then show ?thesis using inv 
    by (auto simp: answered_def launch_first_eq new_task_def nth_append less_Suc_eq nth_list_update free_capacity_events_def failure_events_def)
next
  case (skip g)
  then show ?thesis using inv 
    by (auto simp: answered_def launch_first_eq new_task_def nth_append less_Suc_eq nth_list_update free_capacity_events_def failure_events_def)
next
  case (first_sleep request est sem)
  then show ?thesis using inv 
    by (auto simp: answered_def launch_first_eq new_task_def nth_append less_Suc_eq nth_list_update free_capacity_events_def failure_events_def)
next
  case (first_cool request est sem)
  then show ?thesis using inv 
    by (auto simp: answered_def launch_first_eq new_task_def nth_append less_Suc_eq nth_list_update free_capacity_events_def failure_events_def)
next
  case (first_launch request est sem)
  then show ?thesis using inv 
    by (auto simp: answered_def launch_first_eq new_task_def nth_append less_Suc_eq nth_list_update free_capacity_events_def failure_events_def)
next
  case (cooled_launch request est wake)
  then show ?thesis using inv 
    by (auto simp: answered_def launch_first_eq new_task_def nth_append less_Suc_eq nth_list_update free_capacity_events_def failure_events_def)
next
  case wait_first
  then show ?thesis using inv 
    by (auto simp: answered_def launch_first_eq new_task_def nth_append less_Suc_eq nth_list_update free_capacity_events_def failure_events_def)
next
  case (gather pc)
  then show ?thesis using inv 
    by (auto simp: answered_def launch_first_eq new_task_def nth_append less_Suc_eq nth_list_update free_capacity_events_def failure_events_def)
next
  case (queue_empty sem)
  then show ?thesis using inv 
    by (auto simp: answered_def launch_first_eq new_task_def nth_append less_Suc_eq nth_list_update free_capacity_events_def failure_events_def)
next
  case (retry_sleep request est sem rest)
  then show ?thesis using inv 
    by (auto simp: answered_def launch_first_eq new_task_def nth_append less_Suc_eq nth_list_update free_capacity_events_def failure_events_def)
next
  case (retry_launch request est sem rest pc)
  then show ?thesis using inv 
    by (auto simp: answered_def launch_first_eq new_task_def nth_append less_Suc_eq nth_list_update free_capacity_events_def failure_events_def)
next
  case (wait_retries mode deadline pc)
  then show ?thesis using inv 
    by (auto simp: answered_def launch_first_eq new_task_def nth_append less_Suc_eq nth_list_update free_capacity_events_def failure_events_def)
qed

lemma answered_task_start:
  assumes inv: "answered s"
    and st: "task_start h s = Some s'"
  shows "answered s'"
  using inv task_start_effect[OF st] 
  by (auto simp: answered_def launch_first_eq new_task_def nth_append less_Suc_eq nth_list_update free_capacity_events_def failure_events_def)

lemma answered_task_response:
  assumes inv: "answered s"
    and st: "task_response cfg h res s = Some s'"
  shows "answered s'"
  using st
proof (cases rule: task_response_cases)
  case (succeeded resp usage)
  then show ?thesis using inv 
    by (auto simp: answered_def launch_first_eq new_task_def nth_append less_Suc_eq nth_list_update free_capacity_events_def failure_events_def)
next
  case (requeued e st evs)
  then show ?thesis using inv 
    by (auto simp: answered_def launch_first_eq new_task_def nth_append less_Suc_eq nth_list_update free_capacity_events_def failure_events_def)
next
  case (exhausted e resp st evs)
  then show ?thesis using inv 
    by (auto simp: answered_def launch_first_eq new_task_def nth_append less_Suc_eq nth_list_update free_capacity_events_def failure_events_def)
qed

lemma answered_task_appended:
  assumes inv: "answered s"
    and st: "task_appended h s = Some s'"
  shows "answered s'"
  using st
proof (cases rule: task_appended_cases)
  case (success resp)
  then show ?thesis using inv 
    by (auto simp: answered_def launch_first_eq new_task_def nth_append less_Suc_eq nth_list_update free_capacity_events_def failure_events_def)
next
  case (failure resp)
  then show ?thesis using inv 
    by (auto simp: answered_def launch_first_eq new_task_def nth_append less_Suc_eq nth_list_update free_capacity_events_def failure_events_def)
qed

lemma answered_step:
  assumes inv: "answered s"
    and st: "step cfg a s = Some s'"
  shows "answered s'"
  using st
proof (cases rule: step_cases)
  case (tick d)
  then show ?thesis using inv  by (simp add: answered_def launch_first_eq new_task_def nth_append less_Suc_eq nth_list_update free_capacity_events_def failure_events_def)
next
  case (main b)
  show ?thesis by (rule answered_main_step[OF inv   main(2)])
next
  case (start h)
  show ?thesis by (rule answered_task_start[OF inv   start(2)])
next
  case (response h res)
  show ?thesis by (rule answered_task_response[OF inv   response(2)])
next
  case (appended h)
  show ?thesis by (rule answered_task_appended[OF inv   appended(2)])
qed

lemma answered_init:
  shows "answered (init cfg t0 tl0 tpm requests existing)"
  by (simp add: answered_def init_def)

lemma answered_run:
  assumes r: "run cfg acts (init cfg t0 tl0 tpm requests existing) = Some s"
  shows "answered s"
proof -
  have "(\<lambda>s. answered s) s"
  proof (rule run_invariant[where P = "\<lambda>s. answered s" and cfg = cfg])
    show "\<And>a s s'. (\<lambda>s. answered s) s \<Longrightarrow> step cfg a s = Some s' \<Longrightarrow> (\<lambda>s. answered s) s'"
      by (auto intro: answered_step )
    show "(\<lambda>s. answered s) (init cfg t0 tl0 tpm requests existing)"
      by (simp add: answered_init )
    show "run cfg acts (init cfg t0 tl0 tpm requests existing) = Some s"
      by fact
  qed
  then show ?thesis by simp
qed

lemma freed_before_append_main_step:
  assumes inv: "freed_before_append tpm s"
    and x1: "limit_fixed tpm s"
    and st: "main_step cfg b s = Some s'"
  shows "freed_before_append tpm s'"
  using st
proof (cases rule: main_step_cases)
  case (read g rest)
  then show ?thesis using inv 
    by (auto simp: freed_before_append_def launch_first_eq nth_append less_Suc_eq intro!: freed_before_append_grow[OF inv]; auto simp: freed_def new_task_def)
next
  case eof_gather
  then show ?thesis using inv 
    by (auto simp: freed_before_append_def launch_first_eq nth_append less_Suc_eq intro!: freed_before_append_grow[OF inv]; auto simp: freed_def new_task_def)
next
  case (eof_retry pc)
  then show ?thesis using inv 
    by (auto simp: freed_before_append_def launch_first_eq nth_append less_Suc_eq intro!: freed_before_append_grow[OF inv]; auto simp: freed_def new_task_def)
next
  case (skip g)
  then show ?thesis using inv 
    by (auto simp: freed_before_append_def launch_first_eq nth_append less_Suc_eq intro!: freed_before_append_grow[OF inv]; auto simp: freed_def new_task_def)
next
  case (first_sleep request est sem)
  then show ?thesis using inv 
    by (auto simp: freed_before_append_def launch_first_eq nth_append less_Suc_eq intro!: freed_before_append_grow[OF inv]; auto simp: freed_def new_task_def)
next
  case (first_cool request est sem)
  then show ?thesis using inv 
    by (auto simp: freed_before_append_def launch_first_eq nth_append less_Suc_eq intro!: freed_before_append_grow[OF inv]; auto simp: freed_def new_task_def)
next
  case (first_launch request est sem)
  then show ?thesis using inv 
    by (auto simp: freed_before_append_def launch_first_eq nth_append less_Suc_eq intro!: freed_before_append_grow[OF inv]; auto simp: freed_def new_task_def)
next
  case (cooled_launch request est wake)
  then show ?thesis using inv 
    by (auto simp: freed_before_append_def launch_first_eq nth_append less_Suc_eq intro!: freed_before_append_grow[OF inv]; auto simp: freed_def new_task_def)
next
  case wait_first
  then show ?thesis using inv 
    by (auto simp: freed_before_append_def launch_first_eq nth_append less_Suc_eq intro!: freed_before_append_grow[OF inv]; auto simp: freed_def new_task_def)
next
  case (gather pc)
  then show ?thesis using inv 
    by (auto simp: freed_before_append_def launch_first_eq nth_append less_Suc_eq intro!: freed_before_append_grow[OF inv]; auto simp: freed_def new_task_def)
next
  case (queue_empty sem)
  then show ?thesis using inv 
    by (auto simp: freed_before_append_def launch_first_eq nth_append less_Suc_eq intro!: freed_before_append_grow[OF inv]; auto simp: freed_def new_task_def)
next
  case (retry_sleep request est sem rest)
  then show ?thesis using inv 
    by (auto simp: freed_before_append_def launch_first_eq nth_append less_Suc_eq intro!: freed_before_append_grow[OF inv]; auto simp: freed_def new_task_def)
next
  case (retry_launch request est sem rest pc)
  then show ?thesis using inv 
    by (auto simp: freed_before_append_def launch_first_eq nth_append less_Suc_eq intro!: freed_before_append_grow[OF inv]; auto simp: freed_def new_task_def)
next
  case (wait_retries mode deadline pc)
  then show ?thesis using inv 
    by (auto simp: freed_before_append_def launch_first_eq nth_append less_Suc_eq intro!: freed_before_append_grow[OF inv]; auto simp: freed_def new_task_def)
qed

lemma freed_before_append_task_start:
  assumes inv: "freed_before_append tpm s"
    and x1: "limit_fixed tpm s"
    and st: "task_start h s = Some s'"
  shows "freed_before_append tpm s'"
  using inv task_start_effect[OF st] 
  by (auto simp: freed_before_append_def intro!: freed_before_append_update[OF inv]; auto simp: freed_def)

lemma freed_before_append_task_response:
  assumes inv: "freed_before_append tpm s"
    and x1: "limit_fixed tpm s"
    and st: "task_response cfg h res s = Some s'"
  shows "freed_before_append tpm s'"
  using st
proof (cases rule: task_response_cases)
  case (succeeded resp usage)
  then show ?thesis using inv x1
    by (auto simp: freed_before_append_def intro!: freed_before_append_update[OF inv]; auto simp: freed_def free_capacity_events_def limit_fixed_def)
next
  case (requeued e st evs)
  then show ?thesis using inv 
    by (auto simp: freed_before_append_def intro!: freed_before_append_update[OF inv]; auto simp: freed_def)
next
  case (exhausted e resp st evs)
  then show ?thesis using inv 
    by (auto simp: freed_before_append_def intro!: freed_before_append_update[OF inv]; auto simp: freed_def)
qed

lemma freed_before_append_task_appended:
  assumes inv: "freed_before_append tpm s"
    and x1: "limit_fixed tpm s"
    and st: "task_appended h s = Some s'"
  shows "freed_before_append tpm s'"
  using st
proof (cases rule: task_appended_cases)
  case (success resp)
  then show ?thesis using inv 
    by (auto simp: freed_before_append_def intro!: freed_before_append_update[OF inv]; auto simp: freed_def)
next
  case (failure resp)
  then show ?thesis using inv 
    by (auto simp: freed_before_append_def intro!: freed_before_append_update[OF inv]; auto simp: freed_def)
qed

lemma freed_before_append_step:
  assumes inv: "freed_before_append tpm s"
    and x1: "limit_fixed tpm s"
    and st: "step cfg a s = Some s'"
  shows "freed_before_append tpm s'"
  using st
proof (cases rule: step_cases)
  case (tick d)
  then show ?thesis using inv  by (simp add: freed_before_append_def launch_first_eq)
next
  case (main b)
  show ?thesis by (rule freed_before_append_main_step[OF inv x1  main(2)])
next
  case (start h)
  show ?thesis by (rule freed_before_append_task_start[OF inv x1  start(2)])
next
  case (response h res)
  show ?thesis by (rule freed_before_append_task_response[OF inv x1  response(2)])
next
  case (appended h)
  show ?thesis by (rule freed_before_append_task_appended[OF inv x1  appended(2)])
qed

lemma freed_before_append_init:
  shows "freed_before_append tpm (init cfg t0 tl0 tpm requests existing)"
  by (simp add: freed_before_append_def init_def)

lemma freed_before_append_run:
  assumes r: "run cfg acts (init cfg t0 tl0 tpm requests existing) = Some s"
  shows "freed_before_append tpm s"
proof -
  have "(\<lambda>s. freed_before_append tpm s \<and> limit_fixed tpm s) s"
  proof (rule run_invariant[where P = "\<lambda>s. freed_before_append tpm s \<and> limit_fixed tpm s" and cfg = cfg])
    show "\<And>a s s'. (\<lambda>s. freed_before_append tpm s \<and> limit_fixed tpm s) s \<Longrightarrow> step cfg a s = Some s' \<Longrightarrow> (\<lambda>s. freed_before_append tpm s \<and> limit_fixed tpm s) s'"
      by (auto intro: freed_before_append_step limit_fixed_step)
    show "(\<lambda>s. freed_before_append tpm s \<and> limit_fixed tpm s) (init cfg t0 tl0 tpm requests existing)"
      by (simp add: freed_before_append_init limit_fixed_init)
    show "run cfg acts (init cfg t0 tl0 tpm requests existing) = Some s"
      by fact
  qed
  then show ?thesis by simp
qed

lemma capacity_ordered_main_step:
  assumes inv: "capacity_ordered tpm s"
    and x1: "limit_fixed tpm s"
    and x2: "reserved s"
    and x3: "answered s"
    and x4: "freed_before_append tpm s"
    and st: "main_step cfg b s = Some s'"
  shows "capacity_ordered tpm s'"
  using st
proof (cases rule: main_step_cases)
  case (read g rest)
  then show ?thesis using inv 
    by (auto simp: capacity_ordered_def launch_first_eq)
next
  case eof_gather
  then show ?thesis using inv 
    by (auto simp: capacity_ordered_def launch_first_eq)
next
  case (eof_retry pc)
  then show ?thesis using inv 
    by (auto simp: capacity_ordered_def launch_first_eq)
next
  case (skip g)
  then show ?thesis using inv 
    by (auto simp: capacity_ordered_def launch_first_eq)
next
  case (first_sleep request est sem)
  then show ?thesis using inv 
    by (auto simp: capacity_ordered_def launch_first_eq)
next
  case (first_cool request est sem)
  then show ?thesis using inv 
    by (auto simp: capacity_ordered_def launch_first_eq)
next
  case (first_launch request est sem)
  then show ?thesis using inv 
    by (auto simp: capacity_ordered_def launch_first_eq)
next
  case (cooled_launch request est wake)
  then show ?thesis using inv 
    by (auto simp: capacity_ordered_def launch_first_eq)
next
  case wait_first
  then show ?thesis using inv 
    by (auto simp: capacity_ordered_def launch_first_eq)
next
  case (gather pc)
  then show ?thesis using inv 
    by (auto simp: capacity_ordered_def launch_first_eq)
next
  case (queue_empty sem)
  then show ?thesis using inv 
    by (auto simp: capacity_ordered_def launch_first_eq)
next
  case (retry_sleep request est sem rest)
  then show ?thesis using inv 
    by (auto simp: capacity_ordered_def launch_first_eq)
next
  case (retry_launch request est sem rest pc)
  then show ?thesis using inv 
    by (auto simp: capacity_ordered_def launch_first_eq)
next
  case (wait_retries mode deadline pc)
  then show ?thesis using inv 
    by (auto simp: capacity_ordered_def launch_first_eq)
qed

lemma capacity_ordered_task_start:
  assumes inv: "capacity_ordered tpm s"
    and x1: "limit_fixed tpm s"
    and x2: "reserved s"
    and x3: "answered s"
    and x4: "freed_before_append tpm s"
    and st: "task_start h s = Some s'"
  shows "capacity_ordered tpm s'"
  using inv task_start_effect[OF st] x2
  by (auto simp: capacity_ordered_def reserved_def)

lemma capacity_ordered_task_response:
  assumes inv: "capacity_ordered tpm s"
    and x1: "limit_fixed tpm s"
    and x2: "reserved s"
    and x3: "answered s"
    and x4: "freed_before_append tpm s"
    and st: "task_response cfg h res s = Some s'"
  shows "capacity_ordered tpm s'"
  using st
proof (cases rule: task_response_cases)
  case (succeeded resp usage)
  then show ?thesis using inv x1 answered_none[OF x3 succeeded(1)] succeeded(2)
    by (auto simp: capacity_ordered_def free_capacity_events_def limit_fixed_def)
next
  case (requeued e st evs)
  then show ?thesis using inv answered_none[OF x3 requeued(1)] requeued(2) capacity_order_failure[OF requeued(4), of "trace s" "tpm \<noteq> None" "now s"]
    by (auto simp: capacity_ordered_def)
next
  case (exhausted e resp st evs)
  then show ?thesis using inv answered_none[OF x3 exhausted(1)] exhausted(2) capacity_order_failure[OF exhausted(7), of "trace s" "tpm \<noteq> None" "now s"]
    by (auto simp: capacity_ordered_def)
qed

lemma capacity_ordered_task_appended:
  assumes inv: "capacity_ordered tpm s"
    and x1: "limit_fixed tpm s"
    and x2: "reserved s"
    and x3: "answered s"
    and x4: "freed_before_append tpm s"
    and st: "task_appended h s = Some s'"
  shows "capacity_ordered tpm s'"
  using st
proof (cases rule: task_appended_cases)
  case (success resp)
  then show ?thesis using inv freed_list_ex[OF x4 x2 success(1,2)]
    by (auto simp: capacity_ordered_def)
next
  case (failure resp)
  then show ?thesis using inv 
    by (auto simp: capacity_ordered_def launch_first_eq)
qed

lemma capacity_ordered_step:
  assumes inv: "capacity_ordered tpm s"
    and x1: "limit_fixed tpm s"
    and x2: "reserved s"
    and x3: "answered s"
    and x4: "freed_before_append tpm s"
    and st: "step cfg a s = Some s'"
  shows "capacity_ordered tpm s'"
  using st
proof (cases rule: step_cases)
  case (tick d)
  then show ?thesis using inv  by (simp add: capacity_ordered_def launch_first_eq)
next
  case (main b)
  show ?thesis by (rule capacity_ordered_main_step[OF inv x1 x2 x3 x4  main(2)])
next
  case (start h)
  show ?thesis by (rule capacity_ordered_task_start[OF inv x1 x2 x3 x4  start(2)])
next
  case (response h res)
  show ?thesis by (rule capacity_ordered_task_response[OF inv x1 x2 x3 x4  response(2)])
next
  case (appended h)
  show ?thesis by (rule capacity_ordered_task_appended[OF inv x1 x2 x3 x4  appended(2)])
qed

lemma capacity_ordered_init:
  shows "capacity_ordered tpm (init cfg t0 tl0 tpm requests existing)"
  by (simp add: capacity_ordered_def init_def)

lemma capacity_ordered_run:
  assumes r: "run cfg acts (init cfg t0 tl0 tpm requests existing) = Some s"
  shows "capacity_ordered tpm s"
proof -
  have "(\<lambda>s. capacity_ordered tpm s \<and> limit_fixed tpm s \<and> reserved s \<and> answered s \<and> freed_before_append tpm s) s"
  proof (rule run_invariant[where P = "\<lambda>s. capacity_ordered tpm s \<and> limit_fixed tpm s \<and> reserved s \<and> answered s \<and> freed_before_append tpm s" and cfg = cfg])
    show "\<And>a s s'. (\<lambda>s. capacity_ordered tpm s \<and> limit_fixed tpm s \<and> reserved s \<and> answered s \<and> freed_before_append tpm s) s \<Longrightarrow> step cfg a s = Some s' \<Longrightarrow> (\<lambda>s. capacity_ordered tpm s \<and> limit_fixed tpm s \<and> reserved s \<and> answered s \<and> freed_before_append tpm s) s'"
      by (auto intro: capacity_ordered_step limit_fixed_step reserved_step answered_step freed_before_append_step)
    show "(\<lambda>s. capacity_ordered tpm s \<and> limit_fixed tpm s \<and> reserved s \<and> answered s \<and> freed_before_append tpm s) (init cfg t0 tl0 tpm requests existing)"
      by (simp add: capacity_ordered_init limit_fixed_init reserved_init answered_init freed_before_append_init)
    show "run cfg acts (init cfg t0 tl0 tpm requests existing) = Some s"
      by fact
  qed
  then show ?thesis by simp
qed


subsection \<open>The attempts made for one line\<close>

lemma first_origin_new:
  "first_origin cfg s request est sem \<Longrightarrow> ids_started cfg s \<Longrightarrow>
     task_id request = num_tasks_started (status_tracker s)
     \<and> attempts_left request = max_retries cfg"
  by (auto simp: first_origin_def ids_started_def new_request_def)

lemma cooled_new:
  "main s = CoolDown request est wake \<Longrightarrow> ids_started cfg s \<Longrightarrow>
     task_id request = num_tasks_started (status_tracker s)
     \<and> attempts_left request = max_retries cfg"
  by (simp add: ids_started_def)

lemma sum_list_update_int:
  fixes xs :: "int list"
  shows "h < length xs \<Longrightarrow> sum_list (xs[h := v]) = sum_list xs - xs ! h + v"
proof (induction xs arbitrary: h)
  case Nil
  then show ?case by simp
next
  case (Cons a xs)
  then show ?case by (cases h) auto
qed

lemma sum_list_map_update:
  fixes f :: "'a \<Rightarrow> int"
  assumes "h < length ts"
  shows "sum_list (map f (ts[h := y])) = sum_list (map f ts) - f (ts ! h) + f y"
  using assms sum_list_update_int[of h "map f ts" "f y"] by (simp add: map_update)

lemma sum_list_map_zero:
  fixes f :: "'a \<Rightarrow> int"
  shows "(\<forall>x \<in> set xs. f x = 0) \<Longrightarrow> sum_list (map f xs) = 0"
  by (induction xs) auto

lemma retry_origin_sum:
  fixes w :: "api_request \<Rightarrow> int"
  shows "retry_origin cfg s request est sem rest \<Longrightarrow>
     sum_list (map w (queue_of_requests_to_retry s @ held_retry (main s)))
       = w request + sum_list (map w rest)"
  by (auto simp: retry_origin_def)

lemma count_for_Cons:
  "count_for sel ts k ((t, e) # tr)
     = (case sel e of
          Some h \<Rightarrow> if task_id (t_request (ts ! h)) = k then 1 else 0
        | None \<Rightarrow> 0) + count_for sel ts k tr"
  by (simp add: count_for_def split: option.splits)

lemma count_for_cong:
  assumes "\<forall>x \<in> set tr. \<forall>h. sel (snd x) = Some h \<longrightarrow>
             task_id (t_request (ts' ! h)) = task_id (t_request (ts ! h))"
  shows "count_for sel ts' k tr = count_for sel ts k tr"
proof -
  have "filter (\<lambda>x. case sel (snd x) of
                       Some h \<Rightarrow> task_id (t_request (ts' ! h)) = k | None \<Rightarrow> False) tr
          = filter (\<lambda>x. case sel (snd x) of
                       Some h \<Rightarrow> task_id (t_request (ts ! h)) = k | None \<Rightarrow> False) tr"
    using assms by (intro filter_cong) (auto split: option.splits)
  then show ?thesis by (simp add: count_for_def)
qed

lemma known_sel:
  assumes "known s" and "sel = called_task \<or> sel = logged_task"
    and "x \<in> set (trace s)" and "sel (snd x) = Some h"
  shows "h < length (tasks s)"
  using assms by (auto simp: known_def)

lemma count_for_update:
  assumes "known s" and "sel = called_task \<or> sel = logged_task"
    and "task_id (t_request y) = task_id (t_request (tasks s ! h))"
  shows "count_for sel ((tasks s)[h := y]) k (trace s) = count_for sel (tasks s) k (trace s)"
proof (rule count_for_cong, intro ballI allI impI)
  fix x h'
  assume "x \<in> set (trace s)" and "sel (snd x) = Some h'"
  then have "h' < length (tasks s)" using known_sel[OF assms(1,2)] by blast
  then show "task_id (t_request ((tasks s)[h := y] ! h')) = task_id (t_request (tasks s ! h'))"
    using assms(3) by (cases "h' = h") auto
qed

lemma count_for_append:
  assumes "known s" and "sel = called_task \<or> sel = logged_task"
  shows "count_for sel (tasks s @ [t]) k (trace s) = count_for sel (tasks s) k (trace s)"
proof (rule count_for_cong, intro ballI allI impI)
  fix x h'
  assume "x \<in> set (trace s)" and "sel (snd x) = Some h'"
  then have "h' < length (tasks s)" using known_sel[OF assms(1,2)] by blast
  then show "task_id (t_request ((tasks s @ [t]) ! h')) = task_id (t_request (tasks s ! h'))"
    by (simp add: nth_append)
qed

lemma count_for_failure:
  assumes "failure_events h evs" and "sel = called_task \<or> sel = logged_task"
  shows "count_for sel ts k (rev (map (Pair t) evs) @ tr) = count_for sel ts k tr"
proof -
  have "\<forall>e \<in> set evs. sel e = None"
    using assms by (auto simp: failure_events_def)
  then have "filter (\<lambda>x. case sel (snd x) of
                       Some h \<Rightarrow> task_id (t_request (ts ! h)) = k | None \<Rightarrow> False)
               (rev (map (Pair t) evs)) = []"
    by (auto simp: filter_empty_conv)
  then show ?thesis by (simp add: count_for_def)
qed

lemma fresh_line:
  assumes "ids_started cfg s" and "known s" and "sel = called_task \<or> sel = logged_task"
    and "k = num_tasks_started (status_tracker s)"
  shows "count_for sel (tasks s) k (trace s) = 0"
    and "sum_list (map (calls_left_of_task k) (tasks s)) = 0"
    and "sum_list (map (calls_left_of_request k)
                     (queue_of_requests_to_retry s @ held_retry (main s))) = 0"
    and "sum_list (map (carried_by_task k) (tasks s)) = 0"
    and "sum_list (map (carried_request k)
                     (queue_of_requests_to_retry s @ held_retry (main s))) = 0"
proof -
  have t: "\<forall>t \<in> set (tasks s). task_id (t_request t) \<noteq> k"
    using assms(1,4) by (auto simp: ids_started_def)
  have q: "\<forall>r \<in> set (queue_of_requests_to_retry s @ held_retry (main s)). task_id r \<noteq> k"
  proof
    fix r
    assume "r \<in> set (queue_of_requests_to_retry s @ held_retry (main s))"
    then have "task_id r < num_tasks_started (status_tracker s)"
      using assms(1) unfolding ids_started_def by blast
    then show "task_id r \<noteq> k" using assms(4) by simp
  qed
  have "\<forall>x \<in> set (trace s). \<forall>h. sel (snd x) = Some h \<longrightarrow> task_id (t_request (tasks s ! h)) \<noteq> k"
    using known_sel[OF assms(2,3)] t by (metis nth_mem)
  then have "filter (\<lambda>x. case sel (snd x) of
                       Some h \<Rightarrow> task_id (t_request (tasks s ! h)) = k | None \<Rightarrow> False)
               (trace s) = []"
    by (auto simp: filter_empty_conv split: option.splits)
  then show "count_for sel (tasks s) k (trace s) = 0"
    by (simp add: count_for_def)
  show "sum_list (map (calls_left_of_task k) (tasks s)) = 0"
    using t by (intro sum_list_map_zero) (simp add: calls_left_of_task_def)
  show "sum_list (map (calls_left_of_request k)
                     (queue_of_requests_to_retry s @ held_retry (main s))) = 0"
    using q by (intro sum_list_map_zero) (simp add: calls_left_of_request_def)
  show "sum_list (map (carried_by_task k) (tasks s)) = 0"
    using t by (intro sum_list_map_zero) (simp add: carried_by_task_def)
  show "sum_list (map (carried_request k)
                     (queue_of_requests_to_retry s @ held_retry (main s))) = 0"
    using q by (intro sum_list_map_zero) (simp add: carried_request_def)
qed

lemma known_main_step:
  assumes inv: "known s"
    and st: "main_step cfg b s = Some s'"
  shows "known s'"
  using st
proof (cases rule: main_step_cases)
  case (read g rest)
  then show ?thesis using inv 
    by (auto simp: known_def launch_first_eq less_Suc_eq free_capacity_events_def failure_events_def)
next
  case eof_gather
  then show ?thesis using inv 
    by (auto simp: known_def launch_first_eq less_Suc_eq free_capacity_events_def failure_events_def)
next
  case (eof_retry pc)
  then show ?thesis using inv 
    by (auto simp: known_def launch_first_eq less_Suc_eq free_capacity_events_def failure_events_def)
next
  case (skip g)
  then show ?thesis using inv 
    by (auto simp: known_def launch_first_eq less_Suc_eq free_capacity_events_def failure_events_def)
next
  case (first_sleep request est sem)
  then show ?thesis using inv 
    by (auto simp: known_def launch_first_eq less_Suc_eq free_capacity_events_def failure_events_def)
next
  case (first_cool request est sem)
  then show ?thesis using inv 
    by (auto simp: known_def launch_first_eq less_Suc_eq free_capacity_events_def failure_events_def)
next
  case (first_launch request est sem)
  then show ?thesis using inv 
    by (auto simp: known_def launch_first_eq less_Suc_eq free_capacity_events_def failure_events_def)
next
  case (cooled_launch request est wake)
  then show ?thesis using inv 
    by (auto simp: known_def launch_first_eq less_Suc_eq free_capacity_events_def failure_events_def)
next
  case wait_first
  then show ?thesis using inv 
    by (auto simp: known_def launch_first_eq less_Suc_eq free_capacity_events_def failure_events_def)
next
  case (gather pc)
  then show ?thesis using inv 
    by (auto simp: known_def launch_first_eq less_Suc_eq free_capacity_events_def failure_events_def)
next
  case (queue_empty sem)
  then show ?thesis using inv 
    by (auto simp: known_def launch_first_eq less_Suc_eq free_capacity_events_def failure_events_def)
next
  case (retry_sleep request est sem rest)
  then show ?thesis using inv 
    by (auto simp: known_def launch_first_eq less_Suc_eq free_capacity_events_def failure_events_def)
next
  case (retry_launch request est sem rest pc)
  then show ?thesis using inv 
    by (auto simp: known_def launch_first_eq less_Suc_eq free_capacity_events_def failure_events_def)
next
  case (wait_retries mode deadline pc)
  then show ?thesis using inv 
    by (auto simp: known_def launch_first_eq less_Suc_eq free_capacity_events_def failure_events_def)
qed

lemma known_task_start:
  assumes inv: "known s"
    and st: "task_start h s = Some s'"
  shows "known s'"
  using inv task_start_effect[OF st] 
  by (auto simp: known_def launch_first_eq less_Suc_eq free_capacity_events_def failure_events_def)

lemma known_task_response:
  assumes inv: "known s"
    and st: "task_response cfg h res s = Some s'"
  shows "known s'"
  using st
proof (cases rule: task_response_cases)
  case (succeeded resp usage)
  then show ?thesis using inv 
    by (auto simp: known_def launch_first_eq less_Suc_eq free_capacity_events_def failure_events_def)
next
  case (requeued e st evs)
  then show ?thesis using inv 
    by (auto simp: known_def launch_first_eq less_Suc_eq free_capacity_events_def failure_events_def)
next
  case (exhausted e resp st evs)
  then show ?thesis using inv 
    by (auto simp: known_def launch_first_eq less_Suc_eq free_capacity_events_def failure_events_def)
qed

lemma known_task_appended:
  assumes inv: "known s"
    and st: "task_appended h s = Some s'"
  shows "known s'"
  using st
proof (cases rule: task_appended_cases)
  case (success resp)
  then show ?thesis using inv 
    by (auto simp: known_def launch_first_eq less_Suc_eq free_capacity_events_def failure_events_def)
next
  case (failure resp)
  then show ?thesis using inv 
    by (auto simp: known_def launch_first_eq less_Suc_eq free_capacity_events_def failure_events_def)
qed

lemma known_step:
  assumes inv: "known s"
    and st: "step cfg a s = Some s'"
  shows "known s'"
  using st
proof (cases rule: step_cases)
  case (tick d)
  then show ?thesis using inv  by (simp add: known_def launch_first_eq less_Suc_eq free_capacity_events_def failure_events_def)
next
  case (main b)
  show ?thesis by (rule known_main_step[OF inv   main(2)])
next
  case (start h)
  show ?thesis by (rule known_task_start[OF inv   start(2)])
next
  case (response h res)
  show ?thesis by (rule known_task_response[OF inv   response(2)])
next
  case (appended h)
  show ?thesis by (rule known_task_appended[OF inv   appended(2)])
qed

lemma known_init:
  shows "known (init cfg t0 tl0 tpm requests existing)"
  by (simp add: known_def init_def)

lemma known_run:
  assumes r: "run cfg acts (init cfg t0 tl0 tpm requests existing) = Some s"
  shows "known s"
proof -
  have "(\<lambda>s. known s) s"
  proof (rule run_invariant[where P = "\<lambda>s. known s" and cfg = cfg])
    show "\<And>a s s'. (\<lambda>s. known s) s \<Longrightarrow> step cfg a s = Some s' \<Longrightarrow> (\<lambda>s. known s) s'"
      by (auto intro: known_step )
    show "(\<lambda>s. known s) (init cfg t0 tl0 tpm requests existing)"
      by (simp add: known_init )
    show "run cfg acts (init cfg t0 tl0 tpm requests existing) = Some s"
      by fact
  qed
  then show ?thesis by simp
qed

lemma ids_started_main_step:
  assumes inv: "ids_started cfg s"
    and st: "main_step cfg b s = Some s'"
  shows "ids_started cfg s'"
  using st
proof (cases rule: main_step_cases)
  case (read g rest)
  then show ?thesis using inv 
    by (auto simp: ids_started_def launch_first_eq new_task_def same_task_counters_def)
next
  case eof_gather
  then show ?thesis using inv 
    by (auto simp: ids_started_def launch_first_eq new_task_def same_task_counters_def)
next
  case (eof_retry pc)
  then show ?thesis using inv retry_station_holds[OF eof_retry(5)]
    by (auto simp: ids_started_def new_task_def)
next
  case (skip g)
  then show ?thesis using inv 
    by (auto simp: ids_started_def launch_first_eq new_task_def same_task_counters_def)
next
  case (first_sleep request est sem)
  then show ?thesis using inv first_origin_new[OF first_sleep(1) inv] first_pass_held[OF first_origin_first_pass[OF first_sleep(1)]]
    by (auto simp: ids_started_def launch_first_eq new_task_def)
next
  case (first_cool request est sem)
  then show ?thesis using inv first_origin_new[OF first_cool(1) inv] first_pass_held[OF first_origin_first_pass[OF first_cool(1)]]
    by (auto simp: ids_started_def launch_first_eq new_task_def)
next
  case (first_launch request est sem)
  then show ?thesis using inv first_origin_new[OF first_launch(1) inv] first_pass_held[OF first_origin_first_pass[OF first_launch(1)]]
    by (auto simp: ids_started_def launch_first_eq new_task_def)
next
  case (cooled_launch request est wake)
  then show ?thesis using inv 
    by (fastforce simp: ids_started_def launch_first_eq new_task_def)
next
  case wait_first
  then show ?thesis using inv 
    by (auto simp: ids_started_def launch_first_eq new_task_def same_task_counters_def)
next
  case (gather pc)
  then show ?thesis using inv retry_station_holds[OF gather(4)]
    by (auto simp: ids_started_def new_task_def)
next
  case (queue_empty sem)
  then show ?thesis using inv 
    by (auto simp: ids_started_def launch_first_eq new_task_def same_task_counters_def)
next
  case (retry_sleep request est sem rest)
  then show ?thesis using inv retry_origin_flight[OF retry_sleep(1)]
    by (auto simp: ids_started_def new_task_def)
next
  case (retry_launch request est sem rest pc)
  then show ?thesis using inv retry_origin_flight[OF retry_launch(1)] retry_station_holds[OF retry_launch(5)]
    by (auto simp: ids_started_def new_task_def)
next
  case (wait_retries mode deadline pc)
  then show ?thesis using inv retry_station_holds[OF wait_retries(4)]
    by (auto simp: ids_started_def new_task_def)
qed

lemma ids_started_task_start:
  assumes inv: "ids_started cfg s"
    and st: "task_start h s = Some s'"
  shows "ids_started cfg s'"
  using inv task_start_effect[OF st] nth_mem[of h "tasks s"]
  by (auto simp: ids_started_def same_task_counters_def dest!: set_update_subset_insert[THEN subsetD])

lemma ids_started_task_response:
  assumes inv: "ids_started cfg s"
    and st: "task_response cfg h res s = Some s'"
  shows "ids_started cfg s'"
  using st
proof (cases rule: task_response_cases)
  case (succeeded resp usage)
  then show ?thesis using inv nth_mem[of h "tasks s"]
    by (auto simp: ids_started_def same_task_counters_def dest!: set_update_subset_insert[THEN subsetD])
next
  case (requeued e st evs)
  then show ?thesis using inv nth_mem[of h "tasks s"]
    by (auto simp: ids_started_def same_task_counters_def dest!: set_update_subset_insert[THEN subsetD])
next
  case (exhausted e resp st evs)
  then show ?thesis using inv nth_mem[of h "tasks s"]
    by (auto simp: ids_started_def same_task_counters_def dest!: set_update_subset_insert[THEN subsetD])
qed

lemma ids_started_task_appended:
  assumes inv: "ids_started cfg s"
    and st: "task_appended h s = Some s'"
  shows "ids_started cfg s'"
  using st
proof (cases rule: task_appended_cases)
  case (success resp)
  then show ?thesis using inv nth_mem[of h "tasks s"]
    by (auto simp: ids_started_def same_task_counters_def dest!: set_update_subset_insert[THEN subsetD])
next
  case (failure resp)
  then show ?thesis using inv nth_mem[of h "tasks s"]
    by (auto simp: ids_started_def same_task_counters_def dest!: set_update_subset_insert[THEN subsetD])
qed

lemma ids_started_step:
  assumes inv: "ids_started cfg s"
    and st: "step cfg a s = Some s'"
  shows "ids_started cfg s'"
  using st
proof (cases rule: step_cases)
  case (tick d)
  then show ?thesis using inv  by (simp add: ids_started_def launch_first_eq new_task_def same_task_counters_def)
next
  case (main b)
  show ?thesis by (rule ids_started_main_step[OF inv   main(2)])
next
  case (start h)
  show ?thesis by (rule ids_started_task_start[OF inv   start(2)])
next
  case (response h res)
  show ?thesis by (rule ids_started_task_response[OF inv   response(2)])
next
  case (appended h)
  show ?thesis by (rule ids_started_task_appended[OF inv   appended(2)])
qed

lemma ids_started_init:
  shows "ids_started cfg (init cfg t0 tl0 tpm requests existing)"
  by (simp add: ids_started_def init_def)

lemma ids_started_run:
  assumes r: "run cfg acts (init cfg t0 tl0 tpm requests existing) = Some s"
  shows "ids_started cfg s"
proof -
  have "(\<lambda>s. ids_started cfg s) s"
  proof (rule run_invariant[where P = "\<lambda>s. ids_started cfg s" and cfg = cfg])
    show "\<And>a s s'. (\<lambda>s. ids_started cfg s) s \<Longrightarrow> step cfg a s = Some s' \<Longrightarrow> (\<lambda>s. ids_started cfg s) s'"
      by (auto intro: ids_started_step )
    show "(\<lambda>s. ids_started cfg s) (init cfg t0 tl0 tpm requests existing)"
      by (simp add: ids_started_init )
    show "run cfg acts (init cfg t0 tl0 tpm requests existing) = Some s"
      by fact
  qed
  then show ?thesis by simp
qed

lemma attempt_budget_main_step:
  assumes inv: "attempt_budget cfg k s"
    and x1: "ids_started cfg s"
    and x2: "known s"
    and c1: "0 \<le> max_retries cfg"
    and st: "main_step cfg b s = Some s'"
  shows "attempt_budget cfg k s'"
  using st
proof (cases rule: main_step_cases)
  case (read g rest)
  then show ?thesis using inv 
    by (auto simp: attempt_budget_def attempts_made_def calls_left_of_task_def calls_left_of_request_def count_for_Cons count_for_append count_for_update count_for_failure sum_list_map_update launch_first_eq new_task_def free_capacity_events_def)
next
  case eof_gather
  then show ?thesis using inv 
    by (auto simp: attempt_budget_def attempts_made_def calls_left_of_task_def calls_left_of_request_def count_for_Cons count_for_append count_for_update count_for_failure sum_list_map_update launch_first_eq new_task_def free_capacity_events_def)
next
  case (eof_retry pc)
  then show ?thesis using inv retry_station_held[OF eof_retry(5)]
    by (auto simp: attempt_budget_def attempts_made_def calls_left_of_task_def calls_left_of_request_def count_for_Cons count_for_append count_for_update count_for_failure sum_list_map_update launch_first_eq new_task_def free_capacity_events_def)
next
  case (skip g)
  then show ?thesis using inv 
    by (auto simp: attempt_budget_def attempts_made_def calls_left_of_task_def calls_left_of_request_def count_for_Cons count_for_append count_for_update count_for_failure sum_list_map_update launch_first_eq new_task_def free_capacity_events_def)
next
  case (first_sleep request est sem)
  then show ?thesis using inv first_pass_held[OF first_origin_first_pass[OF first_sleep(1)]]
    by (auto simp: attempt_budget_def attempts_made_def calls_left_of_task_def calls_left_of_request_def count_for_Cons count_for_append count_for_update count_for_failure sum_list_map_update launch_first_eq new_task_def free_capacity_events_def)
next
  case (first_cool request est sem)
  then show ?thesis using inv first_pass_held[OF first_origin_first_pass[OF first_cool(1)]]
    by (auto simp: attempt_budget_def attempts_made_def calls_left_of_task_def calls_left_of_request_def count_for_Cons count_for_append count_for_update count_for_failure sum_list_map_update launch_first_eq new_task_def free_capacity_events_def)
next
  case (first_launch request est sem)
  then show ?thesis using inv x2 c1 first_pass_held[OF first_origin_first_pass[OF first_launch(1)]] first_origin_new[OF first_launch(1) x1] fresh_line(1)[OF x1 x2, of called_task k] fresh_line(2,3)[OF x1 x2, of called_task k]
    by (auto simp: attempt_budget_def attempts_made_def calls_left_of_task_def calls_left_of_request_def count_for_Cons count_for_append count_for_update count_for_failure sum_list_map_update launch_first_eq new_task_def free_capacity_events_def)
next
  case (cooled_launch request est wake)
  then show ?thesis using inv x2 c1 cooled_new[OF cooled_launch(1) x1] fresh_line(1)[OF x1 x2, of called_task k] fresh_line(2,3)[OF x1 x2, of called_task k]
    by (auto simp: attempt_budget_def attempts_made_def calls_left_of_task_def calls_left_of_request_def count_for_Cons count_for_append count_for_update count_for_failure sum_list_map_update launch_first_eq new_task_def free_capacity_events_def)
next
  case wait_first
  then show ?thesis using inv 
    by (auto simp: attempt_budget_def attempts_made_def calls_left_of_task_def calls_left_of_request_def count_for_Cons count_for_append count_for_update count_for_failure sum_list_map_update launch_first_eq new_task_def free_capacity_events_def)
next
  case (gather pc)
  then show ?thesis using inv retry_station_held[OF gather(4)]
    by (auto simp: attempt_budget_def attempts_made_def calls_left_of_task_def calls_left_of_request_def count_for_Cons count_for_append count_for_update count_for_failure sum_list_map_update launch_first_eq new_task_def free_capacity_events_def)
next
  case (queue_empty sem)
  then show ?thesis using inv 
    by (auto simp: attempt_budget_def attempts_made_def calls_left_of_task_def calls_left_of_request_def count_for_Cons count_for_append count_for_update count_for_failure sum_list_map_update launch_first_eq new_task_def free_capacity_events_def)
next
  case (retry_sleep request est sem rest)
  then show ?thesis using inv retry_origin_sum[OF retry_sleep(1), of "calls_left_of_request k"]
    by (auto simp: attempt_budget_def attempts_made_def calls_left_of_task_def calls_left_of_request_def count_for_Cons count_for_append count_for_update count_for_failure sum_list_map_update launch_first_eq new_task_def free_capacity_events_def)
next
  case (retry_launch request est sem rest pc)
  then show ?thesis using inv x2 retry_origin_sum[OF retry_launch(1), of "calls_left_of_request k"] retry_station_held[OF retry_launch(5)]
    by (auto simp: attempt_budget_def attempts_made_def calls_left_of_task_def calls_left_of_request_def count_for_Cons count_for_append count_for_update count_for_failure sum_list_map_update launch_first_eq new_task_def free_capacity_events_def)
next
  case (wait_retries mode deadline pc)
  then show ?thesis using inv retry_station_held[OF wait_retries(4)]
    by (auto simp: attempt_budget_def attempts_made_def calls_left_of_task_def calls_left_of_request_def count_for_Cons count_for_append count_for_update count_for_failure sum_list_map_update launch_first_eq new_task_def free_capacity_events_def)
qed

lemma attempt_budget_task_start:
  assumes inv: "attempt_budget cfg k s"
    and x1: "ids_started cfg s"
    and x2: "known s"
    and c1: "0 \<le> max_retries cfg"
    and st: "task_start h s = Some s'"
  shows "attempt_budget cfg k s'"
  using inv task_start_effect[OF st] x2
  by (auto simp: attempt_budget_def attempts_made_def calls_left_of_task_def calls_left_of_request_def count_for_Cons count_for_append count_for_update count_for_failure sum_list_map_update launch_first_eq new_task_def free_capacity_events_def)

lemma attempt_budget_task_response:
  assumes inv: "attempt_budget cfg k s"
    and x1: "ids_started cfg s"
    and x2: "known s"
    and c1: "0 \<le> max_retries cfg"
    and st: "task_response cfg h res s = Some s'"
  shows "attempt_budget cfg k s'"
  using st
proof (cases rule: task_response_cases)
  case (succeeded resp usage)
  then show ?thesis using inv x2
    by (auto simp: attempt_budget_def attempts_made_def calls_left_of_task_def calls_left_of_request_def count_for_Cons count_for_append count_for_update count_for_failure sum_list_map_update launch_first_eq new_task_def free_capacity_events_def)
next
  case (requeued e st evs)
  then show ?thesis using inv x2
    by (auto simp: attempt_budget_def attempts_made_def calls_left_of_task_def calls_left_of_request_def count_for_Cons count_for_append count_for_update count_for_failure sum_list_map_update launch_first_eq new_task_def free_capacity_events_def)
next
  case (exhausted e resp st evs)
  then show ?thesis using inv x2
    by (auto simp: attempt_budget_def attempts_made_def calls_left_of_task_def calls_left_of_request_def count_for_Cons count_for_append count_for_update count_for_failure sum_list_map_update launch_first_eq new_task_def free_capacity_events_def)
qed

lemma attempt_budget_task_appended:
  assumes inv: "attempt_budget cfg k s"
    and x1: "ids_started cfg s"
    and x2: "known s"
    and c1: "0 \<le> max_retries cfg"
    and st: "task_appended h s = Some s'"
  shows "attempt_budget cfg k s'"
  using st
proof (cases rule: task_appended_cases)
  case (success resp)
  then show ?thesis using inv x2
    by (auto simp: attempt_budget_def attempts_made_def calls_left_of_task_def calls_left_of_request_def count_for_Cons count_for_append count_for_update count_for_failure sum_list_map_update launch_first_eq new_task_def free_capacity_events_def)
next
  case (failure resp)
  then show ?thesis using inv x2
    by (auto simp: attempt_budget_def attempts_made_def calls_left_of_task_def calls_left_of_request_def count_for_Cons count_for_append count_for_update count_for_failure sum_list_map_update launch_first_eq new_task_def free_capacity_events_def)
qed

lemma attempt_budget_step:
  assumes inv: "attempt_budget cfg k s"
    and x1: "ids_started cfg s"
    and x2: "known s"
    and c1: "0 \<le> max_retries cfg"
    and st: "step cfg a s = Some s'"
  shows "attempt_budget cfg k s'"
  using st
proof (cases rule: step_cases)
  case (tick d)
  then show ?thesis using inv  by (simp add: attempt_budget_def attempts_made_def calls_left_of_task_def calls_left_of_request_def count_for_Cons count_for_append count_for_update count_for_failure sum_list_map_update launch_first_eq new_task_def free_capacity_events_def)
next
  case (main b)
  show ?thesis by (rule attempt_budget_main_step[OF inv x1 x2 c1 main(2)])
next
  case (start h)
  show ?thesis by (rule attempt_budget_task_start[OF inv x1 x2 c1 start(2)])
next
  case (response h res)
  show ?thesis by (rule attempt_budget_task_response[OF inv x1 x2 c1 response(2)])
next
  case (appended h)
  show ?thesis by (rule attempt_budget_task_appended[OF inv x1 x2 c1 appended(2)])
qed

lemma attempt_budget_init:
  assumes c1: "0 \<le> max_retries cfg"
  shows "attempt_budget cfg k (init cfg t0 tl0 tpm requests existing)"
  using c1 by (simp add: attempt_budget_def attempts_made_def count_for_def init_def)

lemma attempt_budget_run:
  assumes r: "run cfg acts (init cfg t0 tl0 tpm requests existing) = Some s"
    and c1: "0 \<le> max_retries cfg"
  shows "attempt_budget cfg k s"
proof -
  have "(\<lambda>s. attempt_budget cfg k s \<and> ids_started cfg s \<and> known s) s"
  proof (rule run_invariant[where P = "\<lambda>s. attempt_budget cfg k s \<and> ids_started cfg s \<and> known s" and cfg = cfg])
    show "\<And>a s s'. (\<lambda>s. attempt_budget cfg k s \<and> ids_started cfg s \<and> known s) s \<Longrightarrow> step cfg a s = Some s' \<Longrightarrow> (\<lambda>s. attempt_budget cfg k s \<and> ids_started cfg s \<and> known s) s'"
      by (auto intro: attempt_budget_step[OF _ _ _ c1] ids_started_step known_step)
    show "(\<lambda>s. attempt_budget cfg k s \<and> ids_started cfg s \<and> known s) (init cfg t0 tl0 tpm requests existing)"
      by (simp add: attempt_budget_init[OF c1] ids_started_init known_init)
    show "run cfg acts (init cfg t0 tl0 tpm requests existing) = Some s"
      by fact
  qed
  then show ?thesis by simp
qed

lemma logged_once_main_step:
  assumes inv: "logged_once k s"
    and x1: "ids_started cfg s"
    and x2: "known s"
    and st: "main_step cfg b s = Some s'"
  shows "logged_once k s'"
  using st
proof (cases rule: main_step_cases)
  case (read g rest)
  then show ?thesis using inv 
    by (auto simp: logged_once_def records_logged_def carried_by_task_def carried_request_def count_for_Cons count_for_append count_for_update count_for_failure sum_list_map_update launch_first_eq new_task_def free_capacity_events_def)
next
  case eof_gather
  then show ?thesis using inv 
    by (auto simp: logged_once_def records_logged_def carried_by_task_def carried_request_def count_for_Cons count_for_append count_for_update count_for_failure sum_list_map_update launch_first_eq new_task_def free_capacity_events_def)
next
  case (eof_retry pc)
  then show ?thesis using inv retry_station_held[OF eof_retry(5)]
    by (auto simp: logged_once_def records_logged_def carried_by_task_def carried_request_def count_for_Cons count_for_append count_for_update count_for_failure sum_list_map_update launch_first_eq new_task_def free_capacity_events_def)
next
  case (skip g)
  then show ?thesis using inv 
    by (auto simp: logged_once_def records_logged_def carried_by_task_def carried_request_def count_for_Cons count_for_append count_for_update count_for_failure sum_list_map_update launch_first_eq new_task_def free_capacity_events_def)
next
  case (first_sleep request est sem)
  then show ?thesis using inv first_pass_held[OF first_origin_first_pass[OF first_sleep(1)]]
    by (auto simp: logged_once_def records_logged_def carried_by_task_def carried_request_def count_for_Cons count_for_append count_for_update count_for_failure sum_list_map_update launch_first_eq new_task_def free_capacity_events_def)
next
  case (first_cool request est sem)
  then show ?thesis using inv first_pass_held[OF first_origin_first_pass[OF first_cool(1)]]
    by (auto simp: logged_once_def records_logged_def carried_by_task_def carried_request_def count_for_Cons count_for_append count_for_update count_for_failure sum_list_map_update launch_first_eq new_task_def free_capacity_events_def)
next
  case (first_launch request est sem)
  then show ?thesis using inv x2 first_pass_held[OF first_origin_first_pass[OF first_launch(1)]] first_origin_new[OF first_launch(1) x1] fresh_line(1)[OF x1 x2, of logged_task k] fresh_line(4,5)[OF x1 x2, of logged_task k]
    by (auto simp: logged_once_def records_logged_def carried_by_task_def carried_request_def count_for_Cons count_for_append count_for_update count_for_failure sum_list_map_update launch_first_eq new_task_def free_capacity_events_def)
next
  case (cooled_launch request est wake)
  then show ?thesis using inv x2 cooled_new[OF cooled_launch(1) x1] fresh_line(1)[OF x1 x2, of logged_task k] fresh_line(4,5)[OF x1 x2, of logged_task k]
    by (auto simp: logged_once_def records_logged_def carried_by_task_def carried_request_def count_for_Cons count_for_append count_for_update count_for_failure sum_list_map_update launch_first_eq new_task_def free_capacity_events_def)
next
  case wait_first
  then show ?thesis using inv 
    by (auto simp: logged_once_def records_logged_def carried_by_task_def carried_request_def count_for_Cons count_for_append count_for_update count_for_failure sum_list_map_update launch_first_eq new_task_def free_capacity_events_def)
next
  case (gather pc)
  then show ?thesis using inv retry_station_held[OF gather(4)]
    by (auto simp: logged_once_def records_logged_def carried_by_task_def carried_request_def count_for_Cons count_for_append count_for_update count_for_failure sum_list_map_update launch_first_eq new_task_def free_capacity_events_def)
next
  case (queue_empty sem)
  then show ?thesis using inv 
    by (auto simp: logged_once_def records_logged_def carried_by_task_def carried_request_def count_for_Cons count_for_append count_for_update count_for_failure sum_list_map_update launch_first_eq new_task_def free_capacity_events_def)
next
  case (retry_sleep request est sem rest)
  then show ?thesis using inv retry_origin_sum[OF retry_sleep(1), of "carried_request k"]
    by (auto simp: logged_once_def records_logged_def carried_by_task_def carried_request_def count_for_Cons count_for_append count_for_update count_for_failure sum_list_map_update launch_first_eq new_task_def free_capacity_events_def)
next
  case (retry_launch request est sem rest pc)
  then show ?thesis using inv x2 retry_origin_sum[OF retry_launch(1), of "carried_request k"] retry_station_held[OF retry_launch(5)]
    by (auto simp: logged_once_def records_logged_def carried_by_task_def carried_request_def count_for_Cons count_for_append count_for_update count_for_failure sum_list_map_update launch_first_eq new_task_def free_capacity_events_def)
next
  case (wait_retries mode deadline pc)
  then show ?thesis using inv retry_station_held[OF wait_retries(4)]
    by (auto simp: logged_once_def records_logged_def carried_by_task_def carried_request_def count_for_Cons count_for_append count_for_update count_for_failure sum_list_map_update launch_first_eq new_task_def free_capacity_events_def)
qed

lemma logged_once_task_start:
  assumes inv: "logged_once k s"
    and x1: "ids_started cfg s"
    and x2: "known s"
    and st: "task_start h s = Some s'"
  shows "logged_once k s'"
  using inv task_start_effect[OF st] x2
  by (auto simp: logged_once_def records_logged_def carried_by_task_def carried_request_def count_for_Cons count_for_append count_for_update count_for_failure sum_list_map_update launch_first_eq new_task_def free_capacity_events_def)

lemma logged_once_task_response:
  assumes inv: "logged_once k s"
    and x1: "ids_started cfg s"
    and x2: "known s"
    and st: "task_response cfg h res s = Some s'"
  shows "logged_once k s'"
  using st
proof (cases rule: task_response_cases)
  case (succeeded resp usage)
  then show ?thesis using inv x2
    by (auto simp: logged_once_def records_logged_def carried_by_task_def carried_request_def count_for_Cons count_for_append count_for_update count_for_failure sum_list_map_update launch_first_eq new_task_def free_capacity_events_def)
next
  case (requeued e st evs)
  then show ?thesis using inv x2
    by (auto simp: logged_once_def records_logged_def carried_by_task_def carried_request_def count_for_Cons count_for_append count_for_update count_for_failure sum_list_map_update launch_first_eq new_task_def free_capacity_events_def)
next
  case (exhausted e resp st evs)
  then show ?thesis using inv x2
    by (auto simp: logged_once_def records_logged_def carried_by_task_def carried_request_def count_for_Cons count_for_append count_for_update count_for_failure sum_list_map_update launch_first_eq new_task_def free_capacity_events_def)
qed

lemma logged_once_task_appended:
  assumes inv: "logged_once k s"
    and x1: "ids_started cfg s"
    and x2: "known s"
    and st: "task_appended h s = Some s'"
  shows "logged_once k s'"
  using st
proof (cases rule: task_appended_cases)
  case (success resp)
  then show ?thesis using inv x2
    by (auto simp: logged_once_def records_logged_def carried_by_task_def carried_request_def count_for_Cons count_for_append count_for_update count_for_failure sum_list_map_update launch_first_eq new_task_def free_capacity_events_def)
next
  case (failure resp)
  then show ?thesis using inv x2
    by (auto simp: logged_once_def records_logged_def carried_by_task_def carried_request_def count_for_Cons count_for_append count_for_update count_for_failure sum_list_map_update launch_first_eq new_task_def free_capacity_events_def)
qed

lemma logged_once_step:
  assumes inv: "logged_once k s"
    and x1: "ids_started cfg s"
    and x2: "known s"
    and st: "step cfg a s = Some s'"
  shows "logged_once k s'"
  using st
proof (cases rule: step_cases)
  case (tick d)
  then show ?thesis using inv  by (simp add: logged_once_def records_logged_def carried_by_task_def carried_request_def count_for_Cons count_for_append count_for_update count_for_failure sum_list_map_update launch_first_eq new_task_def free_capacity_events_def)
next
  case (main b)
  show ?thesis by (rule logged_once_main_step[OF inv x1 x2  main(2)])
next
  case (start h)
  show ?thesis by (rule logged_once_task_start[OF inv x1 x2  start(2)])
next
  case (response h res)
  show ?thesis by (rule logged_once_task_response[OF inv x1 x2  response(2)])
next
  case (appended h)
  show ?thesis by (rule logged_once_task_appended[OF inv x1 x2  appended(2)])
qed

lemma logged_once_init:
  shows "logged_once k (init cfg t0 tl0 tpm requests existing)"
  by (simp add: logged_once_def records_logged_def count_for_def init_def)

lemma logged_once_run:
  assumes r: "run cfg acts (init cfg t0 tl0 tpm requests existing) = Some s"
  shows "logged_once k s"
proof -
  have "(\<lambda>s. logged_once k s \<and> ids_started cfg s \<and> known s) s"
  proof (rule run_invariant[where P = "\<lambda>s. logged_once k s \<and> ids_started cfg s \<and> known s" and cfg = cfg])
    show "\<And>a s s'. (\<lambda>s. logged_once k s \<and> ids_started cfg s \<and> known s) s \<Longrightarrow> step cfg a s = Some s' \<Longrightarrow> (\<lambda>s. logged_once k s \<and> ids_started cfg s \<and> known s) s'"
      by (auto intro: logged_once_step ids_started_step known_step)
    show "(\<lambda>s. logged_once k s \<and> ids_started cfg s \<and> known s) (init cfg t0 tl0 tpm requests existing)"
      by (simp add: logged_once_init ids_started_init known_init)
    show "run cfg acts (init cfg t0 tl0 tpm requests existing) = Some s"
      by fact
  qed
  then show ?thesis by simp
qed


section \<open>Runs of \<^verbatim>\<open>process_requests_from_file\<close>\<close>

subsection \<open>Started requests are accounted for\<close>

text \<open>
  Claim C7. In every state that a run reaches, \<open>num_tasks_succeeded + num_tasks_failed\<close> is
  at most \<open>num_tasks_started\<close>, and when \<^verbatim>\<open>process_requests_from_file\<close> has returned the two are
  equal: every started request has been counted exactly once, as succeeded or as failed.
\<close>

theorem started_requests_accounted:
  assumes "run cfg acts (init cfg t0 tl0 tpm requests existing) = Some s"
  shows "num_tasks_succeeded (status_tracker s) + num_tasks_failed (status_tracker s)
           \<le> num_tasks_started (status_tracker s)
         \<and> (main s = Finished \<longrightarrow>
              num_tasks_succeeded (status_tracker s) + num_tasks_failed (status_tracker s)
                = num_tasks_started (status_tracker s))"
proof -
  have a: "accounted s" using assms by (rule accounted_run)
  have w: "well_formed s" using assms by (rule well_formed_run)
  have le: "num_tasks_succeeded (status_tracker s) + num_tasks_failed (status_tracker s)
           \<le> num_tasks_started (status_tracker s)"
    using a by (simp add: accounted_def)
  have "main s = Finished \<Longrightarrow>
              num_tasks_succeeded (status_tracker s) + num_tasks_failed (status_tracker s)
                = num_tasks_started (status_tracker s)"
    using a w finished_no_live_tasks[OF w] by (auto simp: accounted_def well_formed_def)
  with le show ?thesis by blast
qed

theorem started_requests_accounted_witness:
  "\<exists>s. run example_config happy_schedule
          (init example_config 100 0 (Some 1000) [example_generic_request 7] []) = Some s
       \<and> main s = Finished
       \<and> num_tasks_started (status_tracker s) = 1
       \<and> num_tasks_succeeded (status_tracker s) + num_tasks_failed (status_tracker s) = 1"
proof -
  have "\<exists>s. run example_config happy_schedule
          (init example_config 100 0 (Some 1000) [example_generic_request 7] []) = Some s
       \<and> main s = Finished \<and> num_tasks_started (status_tracker s) = 1"
    by (simp add: happy_schedule_def exec_defs example_defs)
  then obtain s where r: "run example_config happy_schedule
          (init example_config 100 0 (Some 1000) [example_generic_request 7] []) = Some s"
    and f: "main s = Finished" and n: "num_tasks_started (status_tracker s) = 1"
    by blast
  from started_requests_accounted [OF r] f n
  have "num_tasks_succeeded (status_tracker s) + num_tasks_failed (status_tracker s) = 1"
    by simp
  with r f n show ?thesis by blast
qed

subsection \<open>The pending tasks of the first pass\<close>

text \<open>
  Claim C9 does not hold for \<open>max_batch = 0\<close>, a value that nothing in the code refuses:
  after the first line is read and its task is created, one task is pending, which is more
  than \<open>3 * max_batch = 0\<close>.
\<close>

theorem pending_tasks_exceed_zero_bound:
  "\<exists>s. run zero_batch_config one_line_schedule
          (init zero_batch_config 100 0 (Some 1000) [example_generic_request 7] []) = Some s
       \<and> max_batch zero_batch_config = 0
       \<and> first_pass (main s)
       \<and> length (pending_requests s) = 1
       \<and> live_tasks s = 1
       \<and> \<not> length (pending_requests s) \<le> 3 * max_batch zero_batch_config"
  by (simp add: one_line_schedule_def live_tasks_def exec_defs example_defs)

text \<open>
  Claim C9, amended. With \<open>max_batch\<close> at least 1, \<^verbatim>\<open>pending_requests\<close> never holds more than
  \<open>3 * max_batch\<close> tasks, and while the loop over the file runs every task that has not run to
  its end is among them. When the bound is reached the main coroutine is in
  \<^verbatim>\<open>asyncio.wait(pending_requests, return_when=FIRST_COMPLETED)\<close>, and it goes on to read the
  next line only when one of the pending tasks is done, with fewer tasks pending.
\<close>

theorem pending_first_pass_tasks_bounded:
  assumes "0 < max_batch cfg"
    and "run cfg acts (init cfg t0 tl0 tpm requests existing) = Some s"
  shows "length (pending_requests s) \<le> 3 * max_batch cfg
         \<and> (first_pass (main s) \<longrightarrow> live_tasks s \<le> length (pending_requests s))
         \<and> (length (pending_requests s) = 3 * max_batch cfg \<longrightarrow> main s = WaitFirstCompleted)
         \<and> (main s = WaitFirstCompleted \<longrightarrow>
              (\<forall>b s'. step cfg (MainStep b) s = Some s' \<longrightarrow>
                 (\<exists>h \<in> set (pending_requests s). task_done s h)
                 \<and> length (pending_requests s') < length (pending_requests s)
                 \<and> main s' = ReadLine))"
proof -
  have b: "backpressure cfg s" using assms by (rule backpressure_run)
  have w: "well_formed s" using assms(2) by (rule well_formed_run)
  have 1: "length (pending_requests s) \<le> 3 * max_batch cfg"
    using b by (simp add: backpressure_def)
  have 2: "first_pass (main s) \<longrightarrow> live_tasks s \<le> length (pending_requests s)"
    using live_tasks_le_pending[OF w] by blast
  have 3: "length (pending_requests s) = 3 * max_batch cfg \<longrightarrow> main s = WaitFirstCompleted"
    using b by (auto simp: backpressure_def)
  have 4: "main s = WaitFirstCompleted \<longrightarrow>
              (\<forall>b s'. step cfg (MainStep b) s = Some s' \<longrightarrow>
                 (\<exists>h \<in> set (pending_requests s). task_done s h)
                 \<and> length (pending_requests s') < length (pending_requests s)
                 \<and> main s' = ReadLine)"
    using list_ex_filter_less[of "task_done s" "pending_requests s"]
    by (auto simp: step_def main_step_def wait_ready_def still_pending_def list_ex_iff
          split: if_splits)
  from 1 2 3 4 show ?thesis by blast
qed

theorem pending_first_pass_tasks_bounded_witness:
  "0 < max_batch example_config
   \<and> (\<exists>s. run example_config full_batch_schedule
            (init example_config 100 0 (Some 1000)
               [example_generic_request 7, example_generic_request 8, example_generic_request 9]
               []) = Some s
        \<and> length (pending_requests s) = 3 * max_batch example_config
        \<and> live_tasks s = 3
        \<and> main s = WaitFirstCompleted
        \<and> step example_config (MainStep True) s = None)"
proof -
  have m: "0 < max_batch example_config"
    by (simp add: example_config_def)
  have "\<exists>s. run example_config full_batch_schedule
            (init example_config 100 0 (Some 1000)
               [example_generic_request 7, example_generic_request 8, example_generic_request 9]
               []) = Some s
        \<and> length (pending_requests s) = 3 * max_batch example_config
        \<and> live_tasks s = 3
        \<and> step example_config (MainStep True) s = None"
    by (simp add: full_batch_schedule_def live_tasks_def exec_defs example_defs)
  then obtain s where r: "run example_config full_batch_schedule
            (init example_config 100 0 (Some 1000)
               [example_generic_request 7, example_generic_request 8, example_generic_request 9]
               []) = Some s"
    and l: "length (pending_requests s) = 3 * max_batch example_config"
    and v: "live_tasks s = 3"
    and n: "step example_config (MainStep True) s = None"
    by blast
  from pending_first_pass_tasks_bounded [OF m r] l
  have "main s = WaitFirstCompleted" by blast
  with m r l v n show ?thesis by blast
qed

subsection \<open>The counter of tasks in progress\<close>

text \<open>
  Claim C6. One line that succeeds at its first call. The calls on the counters come in the
  order \<open>num_tasks_in_progress += 1\<close>, \<^verbatim>\<open>update_stats\<close>, \<open>num_tasks_in_progress -= 1\<close>,
  \<open>num_tasks_succeeded += 1\<close>, but then the \<^verbatim>\<open>finally\<close> of \<^verbatim>\<open>process_with_semaphore\<close> subtracts
  one from \<open>num_tasks_in_progress\<close> a second time: the counter, raised once, is lowered twice and
  is \<open>-1\<close> when \<^verbatim>\<open>process_requests_from_file\<close> returns.
\<close>

theorem in_progress_decremented_twice:
  "\<exists>s. run example_config happy_schedule
          (init example_config 100 0 (Some 1000) [example_generic_request 7] []) = Some s
       \<and> main s = Finished
       \<and> filter (\<lambda>e. e \<in> {InProgressInc 0, UpdateStats 0, InProgressDec 0, SucceededInc 0, FailedInc 0})
           (rev (map snd (trace s)))
         = [InProgressInc 0, UpdateStats 0, InProgressDec 0, SucceededInc 0, InProgressDec 0]
       \<and> num_tasks_succeeded (status_tracker s) = 1
       \<and> num_tasks_in_progress (status_tracker s) = - 1"
  by (simp add: happy_schedule_def exec_defs example_defs)

subsection \<open>Resuming from an existing response file\<close>

text \<open>
  Claim C8. A run on the lines \<open>requests\<close> that starts with the response file \<open>existing\<close>
  creates no task, and so makes no attempt, for a line whose \<open>original_row_idx\<close> is in
  \<open>existing\<close>, and it only appends to the file, records of other rows. When it has returned,
  the rows in the file are those of \<open>existing\<close> and of the input; so if the rows of
  \<open>existing\<close> are rows of the input, they are the rows that a run on the same input from an
  empty response file leaves when it has returned.
\<close>

theorem resume_skips_completed_rows:
  assumes "run cfg acts (init cfg t0 tl0 tpm requests existing) = Some s"
    and "run cfg acts0 (init cfg t1 tl1 tpm1 requests []) = Some s0"
  shows "(\<forall>t \<in> set (tasks s).
            row_of_request (t_request t) \<notin> validate_existing_response_file existing)
         \<and> (\<exists>new. response_file s = existing @ new
               \<and> (\<forall>r \<in> set new.
                     row_of_response r \<notin> validate_existing_response_file existing))
         \<and> (main s = Finished \<longrightarrow>
               logged_rows s
                 = validate_existing_response_file existing
                   \<union> set (map original_row_idx requests))
         \<and> (main s = Finished \<and> main s0 = Finished
              \<and> validate_existing_response_file existing \<subseteq> set (map original_row_idx requests)
              \<longrightarrow> logged_rows s = logged_rows s0)"
proof -
  have res: "resuming existing s"
    using assms(1) by (rule resuming_run)
  have 1: "\<forall>t \<in> set (tasks s).
            row_of_request (t_request t) \<notin> validate_existing_response_file existing"
    using res by (simp add: resuming_def)
  have 2: "\<exists>new. response_file s = existing @ new
               \<and> (\<forall>r \<in> set new.
                     row_of_response r \<notin> validate_existing_response_file existing)"
    using res by (simp add: resuming_def)
  have 3: "main s = Finished \<longrightarrow>
               logged_rows s
                 = validate_existing_response_file existing
                   \<union> set (map original_row_idx requests)"
    using finished_logged_rows[OF assms(1)] by blast
  have "main s0 = Finished \<longrightarrow> logged_rows s0 = set (map original_row_idx requests)"
    using finished_logged_rows[OF assms(2)] by (simp add: validate_existing_response_file_def)
  with 3 have 4: "main s = Finished \<and> main s0 = Finished
              \<and> validate_existing_response_file existing \<subseteq> set (map original_row_idx requests)
              \<longrightarrow> logged_rows s = logged_rows s0"
    by auto
  from 1 2 3 4 show ?thesis by blast
qed

theorem resume_skips_completed_rows_witness:
  "\<exists>s s0. run example_config resume_schedule
             (init example_config 100 0 (Some 1000)
                [example_generic_request 7, example_generic_request 8] [example_response 7])
             = Some s
         \<and> run example_config fresh_schedule
             (init example_config 100 0 (Some 1000)
                [example_generic_request 7, example_generic_request 8] [])
             = Some s0
         \<and> main s = Finished \<and> main s0 = Finished
         \<and> validate_existing_response_file [example_response 7] = {7}
         \<and> map (\<lambda>t. row_of_request (t_request t)) (tasks s) = [8]
         \<and> map row_of_response (response_file s) = [7, 8]
         \<and> logged_rows s = {7, 8}
         \<and> logged_rows s = logged_rows s0"
proof -
  have "\<exists>s. run example_config resume_schedule
             (init example_config 100 0 (Some 1000)
                [example_generic_request 7, example_generic_request 8] [example_response 7])
             = Some s
          \<and> main s = Finished
          \<and> map (\<lambda>t. row_of_request (t_request t)) (tasks s) = [8]
          \<and> map row_of_response (response_file s) = [7, 8]"
    by (simp add: resume_schedule_def row_of_request_def row_of_response_def exec_defs
          example_defs)
  then obtain s where r: "run example_config resume_schedule
             (init example_config 100 0 (Some 1000)
                [example_generic_request 7, example_generic_request 8] [example_response 7])
             = Some s"
    and f: "main s = Finished"
    and t: "map (\<lambda>t. row_of_request (t_request t)) (tasks s) = [8]"
    and l: "map row_of_response (response_file s) = [7, 8]"
    by (elim exE conjE)
  have "\<exists>s0. run example_config fresh_schedule
             (init example_config 100 0 (Some 1000)
                [example_generic_request 7, example_generic_request 8] [])
             = Some s0
          \<and> main s0 = Finished"
    by (simp add: fresh_schedule_def exec_defs example_defs)
  then obtain s0 where r0: "run example_config fresh_schedule
             (init example_config 100 0 (Some 1000)
                [example_generic_request 7, example_generic_request 8] [])
             = Some s0"
    and f0: "main s0 = Finished"
    by (elim exE conjE)
  have v: "validate_existing_response_file [example_response 7] = {7}"
    by (simp add: validate_existing_response_file_def example_defs)
  have i: "set (map original_row_idx [example_generic_request 7, example_generic_request 8])
             = {7, 8}"
    by (simp add: example_defs)
  have sub: "validate_existing_response_file [example_response 7]
               \<subseteq> set (map original_row_idx [example_generic_request 7, example_generic_request 8])"
    unfolding v i by simp
  note th = resume_skips_completed_rows [OF r r0]
  have "logged_rows s
          = validate_existing_response_file [example_response 7]
            \<union> set (map original_row_idx [example_generic_request 7, example_generic_request 8])"
    using f by (rule th[THEN conjunct2, THEN conjunct2, THEN conjunct1, THEN mp])
  also have "\<dots> = {7, 8}"
    unfolding v i by auto
  finally have lr: "logged_rows s = {7, 8}" .
  have eq: "logged_rows s = logged_rows s0"
    by (rule th[THEN conjunct2, THEN conjunct2, THEN conjunct2, THEN mp]) (intro conjI f f0 sub)
  show ?thesis
    apply (rule exI[of _ s])
    apply (rule exI[of _ s0])
    apply (intro conjI)
            apply (rule r)
           apply (rule r0)
          apply (rule f)
         apply (rule f0)
        apply (rule v)
       apply (rule t)
      apply (rule l)
     apply (rule lr)
    apply (rule eq)
    done
qed

subsection \<open>The cool-down after a rate-limit error\<close>

text \<open>
  Claim C2 does not hold as stated. The tasks of the rows 7 and 8 are created, task 0 gets
  a rate-limit error at time 100, and with \<open>seconds_to_pause_on_rate_limit = 5\<close> the task of
  row 8, which was created before the error and waited for \<^verbatim>\<open>request_semaphore\<close>, sends its
  first HTTP call at time 101.
\<close>

theorem calls_sent_during_cool_down:
  "\<exists>s. run example_config no_cool_down_schedule
          (init example_config 100 0 (Some 1000) two_rows []) = Some s
       \<and> seconds_to_pause_on_rate_limit example_config = 5
       \<and> filter (\<lambda>x. snd x \<in> {CreateTask 1, RateLimitError 0, HttpCall 1}) (rev (trace s))
           = [(100, CreateTask 1), (100, RateLimitError 0), (101, HttpCall 1)]
       \<and> original_row_idx (generic_request (t_request (tasks s ! 1))) = 8
       \<and> \<not> no_call_during_cool_down (seconds_to_pause_on_rate_limit example_config) (trace s)"
  by (simp add: no_cool_down_schedule_def exec_defs example_defs)

text \<open>
  Claim C2, amended. When the loop over the file creates the task of a line, the call of
  \<^verbatim>\<open>cool_down_if_rate_limit_error\<close> made for this line has read the time of the latest
  rate-limit error recorded before that call, and at least \<open>seconds_to_pause_on_rate_limit\<close>
  have passed since that time.
\<close>

theorem first_pass_task_waits_for_cool_down:
  assumes "run cfg acts (init cfg t0 tl0 tpm requests existing) = Some s"
    and "step cfg (MainStep b) s = Some s'"
    and "first_pass (main s)"
    and "length (tasks s) < length (tasks s')"
  shows "\<exists>checked before.
           admission_check (length (tasks s)) (trace s') = Some (checked, before)
           \<and> checked = last_rate_limit_error tl0 before
           \<and> checked + seconds_to_pause_on_rate_limit cfg \<le> now s'"
proof -
  have rec: "last_error_recorded tl0 s"
    using assms(1) by (rule last_error_recorded_run)
  have cool: "cooling cfg tl0 s"
    using assms(1) by (rule cooling_run)
  from assms(2) have "main_step cfg b s = Some s'"
    by (simp add: step_def)
  then show ?thesis
  proof (cases rule: main_step_cases)
    case (first_launch request est sem)
    then show ?thesis using rec
      by (simp add: launch_first_eq last_error_recorded_def)
  next
    case (cooled_launch request est wake)
    then show ?thesis using cool
      by (auto simp: launch_first_eq cooling_def)
  next
    case (retry_launch request est sem rest pc)
    then show ?thesis
      using assms(3) retry_origin_not_first_pass[OF retry_launch(1)] by simp
  qed (use assms(4) in auto)
qed

theorem first_pass_task_waits_for_cool_down_witness:
  "\<exists>s s' before.
     run example_config cool_down_schedule
       (init example_config 100 0 (Some 1000) two_rows []) = Some s
     \<and> step example_config (MainStep True) s = Some s'
     \<and> (\<exists>request est. main s = CoolDown request est 105)
     \<and> length (tasks s) = 1 \<and> length (tasks s') = 2
     \<and> now s' = 105
     \<and> admission_check 1 (trace s') = Some (100, before)
     \<and> last_rate_limit_error 0 before = 100
     \<and> 100 + seconds_to_pause_on_rate_limit example_config \<le> now s'"
proof -
  have "\<exists>s s' before.
     run example_config cool_down_schedule
       (init example_config 100 0 (Some 1000) two_rows []) = Some s
     \<and> step example_config (MainStep True) s = Some s'
     \<and> (\<exists>request est. main s = CoolDown request est 105)
     \<and> length (tasks s) = 1 \<and> length (tasks s') = 2
     \<and> now s' = 105
     \<and> admission_check 1 (trace s') = Some (100, before)"
    by (simp add: cool_down_schedule_def exec_defs example_defs)
  then obtain s s' before request est where
    r: "run example_config cool_down_schedule
          (init example_config 100 0 (Some 1000) two_rows []) = Some s"
    and st: "step example_config (MainStep True) s = Some s'"
    and m: "main s = CoolDown request est 105"
    and l: "length (tasks s) = 1" and l': "length (tasks s') = 2"
    and n: "now s' = 105"
    and a: "admission_check 1 (trace s') = Some (100, before)"
    by (elim exE conjE)
  have fp: "first_pass (main s)"
    by (simp add: m)
  have m': "\<exists>request est. main s = CoolDown request est 105"
    using m by blast
  have lt: "length (tasks s) < length (tasks s')"
    by (simp add: l l')
  from first_pass_task_waits_for_cool_down [OF r st fp lt] l a
  have "last_rate_limit_error 0 before = 100"
    and "100 + seconds_to_pause_on_rate_limit example_config \<le> now s'"
    by auto
  with r st m' l l' n a show ?thesis
    by (intro exI[of _ s] exI[of _ s'] exI[of _ before] conjI)
qed

subsection \<open>Capacity: consumed before the task, freed before the success is logged\<close>

text \<open>
  Claim C1. In the record of calls of every state that a run reaches: the creation of a task
  comes right after \<^verbatim>\<open>consume_capacity\<close>, called with the token estimate of the request of the
  task, and so does the HTTP call of the task; the append of a success record comes after
  \<^verbatim>\<open>_free_capacity\<close> for this attempt, called with the blocked estimate (and, under a token
  limit, after the tracker's \<^verbatim>\<open>free_capacity\<close>); and no attempt both fails and frees capacity.
  The record that a task is about to append as a success reports the usage that
  \<^verbatim>\<open>_free_capacity\<close> was called with.
\<close>

theorem capacity_consumed_before_task_and_freed_before_append:
  assumes "run cfg acts (init cfg t0 tl0 tpm requests existing) = Some s"
  shows "capacity_order (tpm \<noteq> None) (trace s)
         \<and> (\<forall>h < length (tasks s).
               reserved_for h (trace s) = Some (estimate_for cfg tpm (t_request (tasks s ! h))))
         \<and> (\<forall>h < length (tasks s). \<forall>resp.
               t_pc (tasks s ! h) = AwaitAppendSuccess resp \<longrightarrow>
               (\<exists>usage. token_usage resp = Some usage
                  \<and> FreeCapacity h
                       \<lparr>tc_input = prompt_tokens usage, tc_output = completion_tokens usage\<rparr>
                       (estimate_for cfg tpm (t_request (tasks s ! h)))
                     \<in> snd ` set (trace s)))"
proof -
  have ord: "capacity_ordered tpm s"
    using assms by (rule capacity_ordered_run)
  have res: "reserved s"
    using assms by (rule reserved_run)
  have est: "estimates cfg tpm s"
    using assms by (rule estimates_run)
  have fr: "freed_before_append tpm s"
    using assms by (rule freed_before_append_run)
  have blocked: "t_blocked (tasks s ! h) = estimate_for cfg tpm (t_request (tasks s ! h))"
    if "h < length (tasks s)" for h
    using est that by (simp add: estimates_def)
  have 1: "capacity_order (tpm \<noteq> None) (trace s)"
    using ord by (simp add: capacity_ordered_def)
  have 2: "\<forall>h < length (tasks s).
             reserved_for h (trace s) = Some (estimate_for cfg tpm (t_request (tasks s ! h)))"
    using res blocked by (simp add: reserved_def)
  have 3: "\<forall>h < length (tasks s). \<forall>resp.
               t_pc (tasks s ! h) = AwaitAppendSuccess resp \<longrightarrow>
               (\<exists>usage. token_usage resp = Some usage
                  \<and> FreeCapacity h
                       \<lparr>tc_input = prompt_tokens usage, tc_output = completion_tokens usage\<rparr>
                       (estimate_for cfg tpm (t_request (tasks s ! h)))
                     \<in> snd ` set (trace s))"
  proof (intro allI impI)
    fix h resp
    assume h: "h < length (tasks s)" and pc: "t_pc (tasks s ! h) = AwaitAppendSuccess resp"
    have "freed tpm (trace s) h (tasks s ! h)"
      using fr h by (simp add: freed_before_append_def)
    from this[unfolded freed_def, rule_format, OF pc] blocked[OF h]
    show "\<exists>usage. token_usage resp = Some usage
                  \<and> FreeCapacity h
                       \<lparr>tc_input = prompt_tokens usage, tc_output = completion_tokens usage\<rparr>
                       (estimate_for cfg tpm (t_request (tasks s ! h)))
                     \<in> snd ` set (trace s)"
      by auto
  qed
  from 1 2 3 show ?thesis by simp
qed

theorem capacity_consumed_before_task_and_freed_before_append_witness:
  "\<exists>s. run example_config capacity_schedule
          (init example_config 100 0 (Some 1000) two_rows []) = Some s
       \<and> capacity_events s
           = [ConsumeCapacity (Some \<lparr>tc_input = 6, tc_output = 0\<rparr>), CreateTask 0,
              ConsumeCapacity (Some \<lparr>tc_input = 6, tc_output = 0\<rparr>), CreateTask 1,
              HttpCall 0, AttemptFailed 0,
              HttpCall 1,
              FreeCapacity 1 \<lparr>tc_input = 10, tc_output = 5\<rparr>
                (Some \<lparr>tc_input = 6, tc_output = 0\<rparr>),
              TrackerFreeCapacity 1 \<lparr>tc_input = 10, tc_output = 5\<rparr>
                (Some \<lparr>tc_input = 6, tc_output = 0\<rparr>),
              AppendSuccess 1]
       \<and> capacity_order True (trace s)
       \<and> reserved_for 1 (trace s) = Some (Some \<lparr>tc_input = 6, tc_output = 0\<rparr>)"
proof -
  have "\<exists>s. run example_config capacity_schedule
          (init example_config 100 0 (Some 1000) two_rows []) = Some s
       \<and> capacity_events s
           = [ConsumeCapacity (Some \<lparr>tc_input = 6, tc_output = 0\<rparr>), CreateTask 0,
              ConsumeCapacity (Some \<lparr>tc_input = 6, tc_output = 0\<rparr>), CreateTask 1,
              HttpCall 0, AttemptFailed 0,
              HttpCall 1,
              FreeCapacity 1 \<lparr>tc_input = 10, tc_output = 5\<rparr>
                (Some \<lparr>tc_input = 6, tc_output = 0\<rparr>),
              TrackerFreeCapacity 1 \<lparr>tc_input = 10, tc_output = 5\<rparr>
                (Some \<lparr>tc_input = 6, tc_output = 0\<rparr>),
              AppendSuccess 1]
       \<and> length (tasks s) = 2
       \<and> estimate_for example_config (Some 1000) (t_request (tasks s ! 1))
           = Some \<lparr>tc_input = 6, tc_output = 0\<rparr>"
    by (simp add: capacity_schedule_def capacity_events_def estimate_for_def exec_defs
          example_defs)
  then obtain s where
    r: "run example_config capacity_schedule
          (init example_config 100 0 (Some 1000) two_rows []) = Some s"
    and e: "capacity_events s
           = [ConsumeCapacity (Some \<lparr>tc_input = 6, tc_output = 0\<rparr>), CreateTask 0,
              ConsumeCapacity (Some \<lparr>tc_input = 6, tc_output = 0\<rparr>), CreateTask 1,
              HttpCall 0, AttemptFailed 0,
              HttpCall 1,
              FreeCapacity 1 \<lparr>tc_input = 10, tc_output = 5\<rparr>
                (Some \<lparr>tc_input = 6, tc_output = 0\<rparr>),
              TrackerFreeCapacity 1 \<lparr>tc_input = 10, tc_output = 5\<rparr>
                (Some \<lparr>tc_input = 6, tc_output = 0\<rparr>),
              AppendSuccess 1]"
    and l: "length (tasks s) = 2"
    and b: "estimate_for example_config (Some 1000) (t_request (tasks s ! 1))
           = Some \<lparr>tc_input = 6, tc_output = 0\<rparr>"
    by (elim exE conjE)
  note th = capacity_consumed_before_task_and_freed_before_append [OF r]
  have o: "capacity_order True (trace s)"
    using th[THEN conjunct1] by simp
  have "reserved_for 1 (trace s)
          = Some (estimate_for example_config (Some 1000) (t_request (tasks s ! 1)))"
    using th[THEN conjunct2, THEN conjunct1] l by simp
  then have v: "reserved_for 1 (trace s) = Some (Some \<lparr>tc_input = 6, tc_output = 0\<rparr>)"
    by (simp only: b)
  from r e o v show ?thesis
    by (intro exI[of _ s] conjI)
qed

subsection \<open>The attempts made for one line\<close>

text \<open>
  Claim C5 does not hold for a negative \<open>max_retries\<close>, a value that nothing in the code
  refuses: with \<open>max_retries = -1\<close> the first line still gets its first HTTP call, one call
  where \<open>max_retries + 1\<close> is 0.
\<close>

theorem first_call_exceeds_negative_budget:
  "\<exists>s. run no_retry_config first_call_schedule
          (init no_retry_config 100 0 (Some 1000) [example_generic_request 7] []) = Some s
       \<and> max_retries no_retry_config + 1 = 0
       \<and> attempts_made s 0 = 1
       \<and> \<not> int (attempts_made s 0) \<le> max_retries no_retry_config + 1"
  by (simp add: first_call_schedule_def attempts_made_def count_for_def exec_defs example_defs)

text \<open>
  Claim C5, amended. With \<open>max_retries\<close> at least 0: for every started line \<open>k\<close>, at most
  \<open>max_retries + 1\<close> HTTP calls are sent, and at most one record, success or permanent
  failure, is appended. An attempt of a request with no attempt left never puts the request
  back on the retry queue. A task that holds a permanent-failure record holds one without a
  message and with the errors of the request as strings, for a request with no attempt
  left; its append writes this record and adds one to \<open>num_tasks_failed\<close>, and the task is
  done.
\<close>

theorem attempts_bounded_and_failure_logged_once:
  assumes "0 \<le> max_retries cfg"
    and "run cfg acts (init cfg t0 tl0 tpm requests existing) = Some s"
  shows "int (attempts_made s k) \<le> max_retries cfg + 1
         \<and> records_logged s k \<le> 1
         \<and> (\<forall>h res s'. step cfg (TaskResponse h res) s = Some s'
                \<and> attempts_left (t_request (tasks s ! h)) \<le> 0 \<longrightarrow>
                (\<exists>resp. t_pc (tasks s' ! h) = AwaitAppendSuccess resp
                        \<or> t_pc (tasks s' ! h) = AwaitAppendFailure resp))
         \<and> (\<forall>h < length (tasks s). \<forall>resp.
               t_pc (tasks s ! h) = AwaitAppendFailure resp \<longrightarrow>
               response_message resp = None
               \<and> response_errors resp = Some (map exn_str (result (t_request (tasks s ! h))))
               \<and> attempts_left (t_request (tasks s ! h)) \<le> 0
               \<and> (\<exists>s'. step cfg (TaskAppended h) s = Some s'
                      \<and> response_file s' = response_file s @ [resp]
                      \<and> num_tasks_failed (status_tracker s')
                          = num_tasks_failed (status_tracker s) + 1
                      \<and> t_pc (tasks s' ! h) = TaskDone))"
proof -
  have b: "attempt_budget cfg k s"
    using assms(2,1) by (rule attempt_budget_run)
  have l: "logged_once k s"
    using assms(2) by (rule logged_once_run)
  have ok: "tasks_ok s"
    using assms(2) by (rule tasks_ok_run)
  have n1: "0 \<le> sum_list (map (calls_left_of_task k) (tasks s))"
    by (rule sum_list_nonneg) (auto simp: calls_left_of_task_def split: task_pc.splits)
  have n2: "0 \<le> sum_list (map (calls_left_of_request k)
                      (queue_of_requests_to_retry s @ held_retry (main s)))"
    by (rule sum_list_nonneg) (auto simp: calls_left_of_request_def)
  have n3: "0 \<le> sum_list (map (carried_by_task k) (tasks s))"
    by (rule sum_list_nonneg) (auto simp: carried_by_task_def)
  have n4: "0 \<le> sum_list (map (carried_request k)
                      (queue_of_requests_to_retry s @ held_retry (main s)))"
    by (rule sum_list_nonneg) (auto simp: carried_request_def)
  have 1: "int (attempts_made s k) \<le> max_retries cfg + 1"
    using b n1 n2 by (simp add: attempt_budget_def)
  have 2: "records_logged s k \<le> 1"
    using l n3 n4 by (simp add: logged_once_def)
  have 3: "\<forall>h res s'. step cfg (TaskResponse h res) s = Some s'
                \<and> attempts_left (t_request (tasks s ! h)) \<le> 0 \<longrightarrow>
                (\<exists>resp. t_pc (tasks s' ! h) = AwaitAppendSuccess resp
                        \<or> t_pc (tasks s' ! h) = AwaitAppendFailure resp)"
  proof (intro allI impI)
    fix h res s'
    assume a: "step cfg (TaskResponse h res) s = Some s'
                \<and> attempts_left (t_request (tasks s ! h)) \<le> 0"
    then have "task_response cfg h res s = Some s'"
      by (simp add: step_def)
    then show "\<exists>resp. t_pc (tasks s' ! h) = AwaitAppendSuccess resp
                        \<or> t_pc (tasks s' ! h) = AwaitAppendFailure resp"
      by (cases rule: task_response_cases) (use a in auto)
  qed
  have 4: "\<forall>h < length (tasks s). \<forall>resp.
               t_pc (tasks s ! h) = AwaitAppendFailure resp \<longrightarrow>
               response_message resp = None
               \<and> response_errors resp = Some (map exn_str (result (t_request (tasks s ! h))))
               \<and> attempts_left (t_request (tasks s ! h)) \<le> 0
               \<and> (\<exists>s'. step cfg (TaskAppended h) s = Some s'
                      \<and> response_file s' = response_file s @ [resp]
                      \<and> num_tasks_failed (status_tracker s')
                          = num_tasks_failed (status_tracker s) + 1
                      \<and> t_pc (tasks s' ! h) = TaskDone)"
  proof (intro allI impI)
    fix h resp
    assume h: "h < length (tasks s)" and pc: "t_pc (tasks s ! h) = AwaitAppendFailure resp"
    have "\<exists>s'. step cfg (TaskAppended h) s = Some s'
                      \<and> response_file s' = response_file s @ [resp]
                      \<and> num_tasks_failed (status_tracker s')
                          = num_tasks_failed (status_tracker s) + 1
                      \<and> t_pc (tasks s' ! h) = TaskDone"
      using h pc
      by (simp add: step_def task_appended_def Let_def emit_def task_exit_def set_task_def
            in_progress_add_def)
    with tasks_ok_failure[OF ok h pc]
    show "response_message resp = None
               \<and> response_errors resp = Some (map exn_str (result (t_request (tasks s ! h))))
               \<and> attempts_left (t_request (tasks s ! h)) \<le> 0
               \<and> (\<exists>s'. step cfg (TaskAppended h) s = Some s'
                      \<and> response_file s' = response_file s @ [resp]
                      \<and> num_tasks_failed (status_tracker s')
                          = num_tasks_failed (status_tracker s) + 1
                      \<and> t_pc (tasks s' ! h) = TaskDone)"
      by simp
  qed
  from 1 2 3 4 show ?thesis by simp
qed

theorem attempts_bounded_and_failure_logged_once_witness:
  "\<exists>s resp s'.
     run one_retry_config exhaust_schedule
       (init one_retry_config 100 0 (Some 1000) [example_generic_request 7] []) = Some s
     \<and> max_retries one_retry_config = 1
     \<and> attempts_made s 0 = 2
     \<and> length (tasks s) = 2
     \<and> t_pc (tasks s ! 1) = AwaitAppendFailure resp
     \<and> map exn_str (result (t_request (tasks s ! 1)))
         = [''API request failed with status'', ''API request failed with status'']
     \<and> response_message resp = None
     \<and> response_errors resp
         = Some [''API request failed with status'', ''API request failed with status'']
     \<and> step one_retry_config (TaskAppended 1) s = Some s'
     \<and> response_file s' = [resp]
     \<and> num_tasks_failed (status_tracker s') = 1"
proof -
  have "\<exists>s resp.
     run one_retry_config exhaust_schedule
       (init one_retry_config 100 0 (Some 1000) [example_generic_request 7] []) = Some s
     \<and> attempts_made s 0 = 2
     \<and> length (tasks s) = 2
     \<and> t_pc (tasks s ! 1) = AwaitAppendFailure resp
     \<and> map exn_str (result (t_request (tasks s ! 1)))
         = [''API request failed with status'', ''API request failed with status'']
     \<and> response_file s = []
     \<and> num_tasks_failed (status_tracker s) = 0"
    by (simp add: exhaust_schedule_def attempts_made_def count_for_def exec_defs example_defs)
  then obtain s resp where
    r: "run one_retry_config exhaust_schedule
          (init one_retry_config 100 0 (Some 1000) [example_generic_request 7] []) = Some s"
    and a: "attempts_made s 0 = 2"
    and l: "length (tasks s) = 2"
    and pc: "t_pc (tasks s ! 1) = AwaitAppendFailure resp"
    and e: "map exn_str (result (t_request (tasks s ! 1)))
         = [''API request failed with status'', ''API request failed with status'']"
    and f: "response_file s = []"
    and n: "num_tasks_failed (status_tracker s) = 0"
    by (elim exE conjE)
  have m: "max_retries one_retry_config = 1"
    by (simp add: one_retry_config_def)
  have m0: "0 \<le> max_retries one_retry_config"
    by (simp add: m)
  have h: "1 < length (tasks s)"
    by (simp add: l)
  note th = attempts_bounded_and_failure_logged_once [OF m0 r, of 0]
  note f4 = th[THEN conjunct2, THEN conjunct2, THEN conjunct2, rule_format, OF h pc]
  from f4 have rm: "response_message resp = None"
    and re: "response_errors resp = Some (map exn_str (result (t_request (tasks s ! 1))))"
    by simp_all
  from f4 obtain s' where
    st: "step one_retry_config (TaskAppended 1) s = Some s'"
    and rf: "response_file s' = response_file s @ [resp]"
    and nf: "num_tasks_failed (status_tracker s') = num_tasks_failed (status_tracker s) + 1"
    by (elim exE conjE)
  have re': "response_errors resp
         = Some [''API request failed with status'', ''API request failed with status'']"
    by (simp only: re e)
  have rf': "response_file s' = [resp]"
    by (simp add: rf f)
  have nf': "num_tasks_failed (status_tracker s') = 1"
    by (simp add: nf n)
  show ?thesis
    apply (rule exI[of _ s])
    apply (rule exI[of _ resp])
    apply (rule exI[of _ s'])
    apply (intro conjI)
              apply (rule r)
             apply (rule m)
            apply (rule a)
           apply (rule l)
          apply (rule pc)
         apply (rule e)
        apply (rule rm)
       apply (rule re')
      apply (rule st)
     apply (rule rf')
    apply (rule nf')
    done
qed

end
